theory Spec2Isabelle
  imports Complex_Main
begin

section \<open>JavaScript values\<close>

text \<open>
  The executor of \<^verbatim>\<open>agentExecutor.ts\<close> works on untyped JSON: node data, contexts and
  results are all \<^verbatim>\<open>any\<close>. They are modelled by one datatype of values: the
  primitives, arrays, plain objects (a list of the own properties, in insertion order)
  and, as \<open>JOpaque\<close>, the objects of the runtime that are not plain data, such as the
  functions and prototype objects that a property read can reach; the string names the
  object.

  Numbers: a number is \<open>NaN\<close>, an infinity or a finite value, kept as a rational;
  what \<^verbatim>\<open>Number\<close> parses is rounded to a double (\<open>to_double\<close>). \<open>-0\<close> is identified
  with \<open>0\<close>: the operators of the evaluator, \<^verbatim>\<open>==\<close>, \<^verbatim>\<open><\<close> and truthiness, do not
  tell them apart.

  Strings: a string is a list of code units below 256, the Latin-1 part of what a
  JavaScript string can hold.
\<close>

datatype jsnum = NaN | PosInf | NegInf | Fin rat

datatype jsval =
    JUndefined
  | JNull
  | JBool bool
  | JNum jsnum
  | JStr string
  | JArr "jsval list"
  | JObj "(string \<times> jsval) list"
  | JOpaque string

datatype prim = PUndefined | PNull | PBool bool | PNum jsnum | PStr string

text \<open>The primitive that a value is; \<open>None\<close> for an object.\<close>

fun as_prim :: "jsval \<Rightarrow> prim option" where
  "as_prim JUndefined = Some PUndefined"
| "as_prim JNull = Some PNull"
| "as_prim (JBool b) = Some (PBool b)"
| "as_prim (JNum n) = Some (PNum n)"
| "as_prim (JStr s) = Some (PStr s)"
| "as_prim (JArr xs) = None"
| "as_prim (JObj kvs) = None"
| "as_prim (JOpaque n) = None"

text \<open>
  What the code asks of the JavaScript runtime and ECMA-262 leaves to the objects
  involved or to the double at hand: printing a number (\<open>Number::toString\<close>),
  reading a property that the value does not hold itself (from its prototype chain
  or, for an opaque object, from the object), converting an object to a primitive
  (\<open>OrdinaryToPrimitive\<close> with its hint, which calls the \<^verbatim>\<open>valueOf\<close> and
  \<^verbatim>\<open>toString\<close> that the object has), and the own enumerable properties of an
  opaque object. Each is a parameter of the model. \<open>Inl\<close> is the message of the error
  that the read or the conversion throws.
\<close>

datatype hint = HintDefault | HintNumber | HintString

record runtime =
  numberToString :: "jsnum \<Rightarrow> string"
  protoGet :: "jsval \<Rightarrow> string \<Rightarrow> string + jsval"
  objectToPrimitive :: "hint \<Rightarrow> jsval \<Rightarrow> string + prim"
  opaqueEntries :: "string \<Rightarrow> (string \<times> jsval) list"

text \<open>Truthiness, as used by \<^verbatim>\<open>a || b\<close> and \<^verbatim>\<open>if (a)\<close>.\<close>

fun truthy :: "jsval \<Rightarrow> bool" where
  "truthy JUndefined = False"
| "truthy JNull = False"
| "truthy (JBool b) = b"
| "truthy (JNum n) = (n \<noteq> NaN \<and> n \<noteq> Fin 0)"
| "truthy (JStr s) = (s \<noteq> [])"
| "truthy (JArr xs) = True"
| "truthy (JObj kvs) = True"
| "truthy (JOpaque n) = True"

definition js_or :: "jsval \<Rightarrow> jsval \<Rightarrow> jsval" where
  "js_or a b = (if truthy a then a else b)"

subsection \<open>Strings\<close>

text \<open>
  The white space and the line terminators of ECMA-262 among the code units below
  256: TAB, LF, VT, FF, CR, SP and the no-break space U+00A0. (The others, U+FEFF,
  U+2028, U+2029 and the space separators from U+1680 on, are code units that the
  strings of this model do not hold.)
\<close>

definition is_ws :: "char \<Rightarrow> bool" where
  "is_ws c = (c = CHR '' '' \<or> c = CHR 0x09 \<or> c = CHR 0x0A \<or> c = CHR 0x0B
      \<or> c = CHR 0x0C \<or> c = CHR 0x0D \<or> c = CHR 0xA0)"

text \<open>\<^verbatim>\<open>s.trim()\<close>\<close>

definition trim :: "string \<Rightarrow> string" where
  "trim s = rev (dropWhile is_ws (rev (dropWhile is_ws s)))"

text \<open>\<^verbatim>\<open>s.startsWith(p)\<close>\<close>

definition starts_with :: "string \<Rightarrow> string \<Rightarrow> bool" where
  "starts_with s p = (take (length p) s = p)"

text \<open>\<^verbatim>\<open>s.includes(p)\<close>\<close>

fun includes_str :: "string \<Rightarrow> string \<Rightarrow> bool" where
  "includes_str [] p = (p = [])"
| "includes_str (c # cs) p = (starts_with (c # cs) p \<or> includes_str cs p)"

text \<open>
  \<^verbatim>\<open>s.split(sep)\<close> for a non-empty separator: every occurrence of the separator,
  found from left to right without overlap, ends a piece. \<open>acc\<close> holds the current
  piece, reversed. (With the empty separator JavaScript splits into single
  characters.)
\<close>

function split_from :: "string \<Rightarrow> string \<Rightarrow> string \<Rightarrow> string list" where
  "split_from sep acc [] = [rev acc]"
| "split_from sep acc (c # cs) =
     (if sep \<noteq> [] \<and> starts_with (c # cs) sep
      then rev acc # split_from sep [] (drop (length sep) (c # cs))
      else split_from sep (c # acc) cs)"
  by pat_completeness auto
termination
  by (relation "measure (\<lambda>(sep, acc, s). length s)") auto

definition split_str :: "string \<Rightarrow> string \<Rightarrow> string list" where
  "split_str s sep = (if sep = [] then map (\<lambda>c. [c]) s else split_from sep [] s)"

subsection \<open>Doubles\<close>

text \<open>
  The double nearest to a rational, ties to the even significand, as IEEE 754 rounds
  and \<^verbatim>\<open>Number\<close> does: 53 bits of significand down to the exponent \<open>-1022\<close>, steps of
  \<open>2^-1074\<close> below, and an infinity when the rounded value reaches \<open>2^1024\<close>.
  \<open>binade x\<close> is the \<open>e\<close> with \<open>2^e \<le> x < 2^(e+1)\<close>, for \<open>x > 0\<close>.
\<close>

function bit_length :: "int \<Rightarrow> nat" where
  "bit_length n = (if n \<le> 0 then 0 else Suc (bit_length (n div 2)))"
  by pat_completeness auto
termination
  by (relation "measure nat") auto

declare bit_length.simps [simp del]

definition pow2 :: "int \<Rightarrow> rat" where
  "pow2 e = (if 0 \<le> e then 2 ^ nat e else 1 / 2 ^ nat (- e))"

definition binade :: "rat \<Rightarrow> int" where
  "binade x =
     (if 1 \<le> x then int (bit_length \<lfloor>x\<rfloor>) - 1
      else - int (bit_length (\<lceil>1 / x\<rceil> - 1)))"

definition round_even :: "rat \<Rightarrow> int" where
  "round_even x =
     (let f = \<lfloor>x\<rfloor>; d = x - of_int f in
      if d < 1 / 2 then f
      else if 1 / 2 < d then f + 1
      else if even f then f else f + 1)"

definition to_double :: "rat \<Rightarrow> jsnum" where
  "to_double x =
     (if x = 0 then Fin 0
      else
        let a = \<bar>x\<bar>;
            e = max (binade a) (- 1022);
            ulp = pow2 (e - 52);
            r = of_int (round_even (a / ulp)) * ulp
        in if 1024 \<le> binade r then (if x < 0 then NegInf else PosInf)
           else Fin (if x < 0 then - r else r))"

subsection \<open>Numeric strings\<close>

text \<open>
  \<^verbatim>\<open>Number(s)\<close> on a string, after the grammar \<open>StringNumericLiteral\<close> of
  ECMA-262: optional white space around a signed decimal literal (digits, an optional
  fraction, an optional exponent, or \<^verbatim>\<open>Infinity\<close>) or an unsigned binary, octal or
  hexadecimal integer; the empty string is \<open>0\<close>; everything else is \<open>NaN\<close>. The
  value of the literal is rounded to a double.
\<close>

definition digit_of :: "char \<Rightarrow> nat option" where
  "digit_of c =
     (let n = (of_char c :: nat) in
      if 48 \<le> n \<and> n \<le> 57 then Some (n - 48)
      else if 97 \<le> n \<and> n \<le> 102 then Some (n - 87)
      else if 65 \<le> n \<and> n \<le> 70 then Some (n - 55)
      else None)"

definition is_digit_in :: "nat \<Rightarrow> char \<Rightarrow> bool" where
  "is_digit_in b c = (case digit_of c of Some d \<Rightarrow> d < b | None \<Rightarrow> False)"

definition digits_value :: "nat \<Rightarrow> string \<Rightarrow> int" where
  "digits_value b s =
     foldl (\<lambda>a c. a * int b + (case digit_of c of Some d \<Rightarrow> int d | None \<Rightarrow> 0)) 0 s"

definition all_digits :: "nat \<Rightarrow> string \<Rightarrow> bool" where
  "all_digits b s = (s \<noteq> [] \<and> list_all (is_digit_in b) s)"

definition SignedInteger :: "string \<Rightarrow> int option" where
  "SignedInteger s =
     (case s of
        [] \<Rightarrow> None
      | c # ds \<Rightarrow>
          if c = CHR ''+'' then
            (if all_digits 10 ds then Some (digits_value 10 ds) else None)
          else if c = CHR ''-'' then
            (if all_digits 10 ds then Some (- digits_value 10 ds) else None)
          else if all_digits 10 s then Some (digits_value 10 s)
          else None)"

definition StrUnsignedDecimalLiteral :: "string \<Rightarrow> jsnum" where
  "StrUnsignedDecimalLiteral s =
     (if s = ''Infinity'' then PosInf
      else
        let ip = takeWhile (is_digit_in 10) s;
            r1 = dropWhile (is_digit_in 10) s;
            dot = starts_with r1 ''.'';
            fp = (if dot then takeWhile (is_digit_in 10) (tl r1) else []);
            r2 = (if dot then dropWhile (is_digit_in 10) (tl r1) else r1);
            ex = (if r2 = [] then Some 0
                  else if starts_with r2 ''e'' \<or> starts_with r2 ''E''
                  then SignedInteger (tl r2) else None)
        in if ip = [] \<and> fp = [] then NaN
           else case ex of
                  None \<Rightarrow> NaN
                | Some e \<Rightarrow>
                    to_double ((of_int (digits_value 10 ip)
                           + of_int (digits_value 10 fp) / 10 ^ length fp)
                         * (if 0 \<le> e then 10 ^ nat e else 1 / 10 ^ nat (- e))))"

fun negate :: "jsnum \<Rightarrow> jsnum" where
  "negate NaN = NaN"
| "negate PosInf = NegInf"
| "negate NegInf = PosInf"
| "negate (Fin q) = Fin (- q)"

definition radix_literal :: "nat \<Rightarrow> string \<Rightarrow> jsnum" where
  "radix_literal b ds =
     (if all_digits b ds then to_double (of_int (digits_value b ds)) else NaN)"

definition StrNumericLiteral :: "string \<Rightarrow> jsnum" where
  "StrNumericLiteral s =
     (if starts_with s ''0x'' \<or> starts_with s ''0X'' then radix_literal 16 (drop 2 s)
      else if starts_with s ''0o'' \<or> starts_with s ''0O'' then radix_literal 8 (drop 2 s)
      else if starts_with s ''0b'' \<or> starts_with s ''0B'' then radix_literal 2 (drop 2 s)
      else if starts_with s ''+'' then StrUnsignedDecimalLiteral (tl s)
      else if starts_with s ''-'' then negate (StrUnsignedDecimalLiteral (tl s))
      else StrUnsignedDecimalLiteral s)"

definition StringToNumber :: "string \<Rightarrow> jsnum" where
  "StringToNumber s = (let t = trim s in if t = [] then Fin 0 else StrNumericLiteral t)"

subsection \<open>Conversions\<close>

text \<open>\<open>ToPrimitive\<close>: a primitive stays; an object is converted by the runtime.\<close>

definition ToPrimitive :: "runtime \<Rightarrow> hint \<Rightarrow> jsval \<Rightarrow> string + prim" where
  "ToPrimitive rt h v =
     (case as_prim v of Some p \<Rightarrow> Inr p | None \<Rightarrow> objectToPrimitive rt h v)"

text \<open>\<open>ToString\<close> and \<open>ToNumber\<close> of a primitive.\<close>

fun prim_string :: "runtime \<Rightarrow> prim \<Rightarrow> string" where
  "prim_string rt PUndefined = ''undefined''"
| "prim_string rt PNull = ''null''"
| "prim_string rt (PBool b) = (if b then ''true'' else ''false'')"
| "prim_string rt (PNum n) = numberToString rt n"
| "prim_string rt (PStr s) = s"

fun prim_number :: "prim \<Rightarrow> jsnum" where
  "prim_number PUndefined = NaN"
| "prim_number PNull = Fin 0"
| "prim_number (PBool b) = (if b then Fin 1 else Fin 0)"
| "prim_number (PNum n) = n"
| "prim_number (PStr s) = StringToNumber s"

text \<open>\<^verbatim>\<open>String(v)\<close> and the conversion of \<^verbatim>\<open>${v}\<close> in a template.\<close>

definition ToString :: "runtime \<Rightarrow> jsval \<Rightarrow> string + string" where
  "ToString rt v =
     (case ToPrimitive rt HintString v of Inl err \<Rightarrow> Inl err | Inr p \<Rightarrow> Inr (prim_string rt p))"

subsection \<open>Equality and ordering\<close>

datatype jstype = TUndefined | TNull | TBoolean | TNumber | TString

fun type_of :: "prim \<Rightarrow> jstype" where
  "type_of PUndefined = TUndefined"
| "type_of PNull = TNull"
| "type_of (PBool b) = TBoolean"
| "type_of (PNum n) = TNumber"
| "type_of (PStr s) = TString"

fun num_eq :: "jsnum \<Rightarrow> jsnum \<Rightarrow> bool" where
  "num_eq NaN b = False"
| "num_eq a NaN = False"
| "num_eq a b = (a = b)"

text \<open>\<open>Number::lessThan\<close>; \<open>None\<close> is the result \<^verbatim>\<open>undefined\<close> (an operand is NaN).\<close>

fun num_lt :: "jsnum \<Rightarrow> jsnum \<Rightarrow> bool option" where
  "num_lt NaN b = None"
| "num_lt a NaN = None"
| "num_lt PosInf b = Some False"
| "num_lt a PosInf = Some True"
| "num_lt a NegInf = Some False"
| "num_lt NegInf b = Some True"
| "num_lt (Fin p) (Fin q) = Some (p < q)"

text \<open>Strings are ordered by their code units, a proper prefix first.\<close>

fun string_lt :: "string \<Rightarrow> string \<Rightarrow> bool" where
  "string_lt a [] = False"
| "string_lt [] (d # ds) = True"
| "string_lt (c # cs) (d # ds) =
     ((of_char c :: nat) < of_char d \<or> (c = d \<and> string_lt cs ds))"

text \<open>\<^verbatim>\<open>x === y\<close> for two primitives of one type.\<close>

fun IsStrictlyEqual :: "prim \<Rightarrow> prim \<Rightarrow> bool" where
  "IsStrictlyEqual (PNum a) (PNum b) = num_eq a b"
| "IsStrictlyEqual x y = (x = y)"

text \<open>\<^verbatim>\<open>x == y\<close> for two primitives: the steps of \<open>IsLooselyEqual\<close> in their order.\<close>

function prim_eq :: "prim \<Rightarrow> prim \<Rightarrow> bool" where
  "prim_eq x y =
     (if type_of x = type_of y then IsStrictlyEqual x y
      else if type_of x = TNull \<and> type_of y = TUndefined then True
      else if type_of x = TUndefined \<and> type_of y = TNull then True
      else if type_of x = TNumber \<and> type_of y = TString
        then prim_eq x (PNum (prim_number y))
      else if type_of x = TString \<and> type_of y = TNumber
        then prim_eq (PNum (prim_number x)) y
      else if type_of x = TBoolean then prim_eq (PNum (prim_number x)) y
      else if type_of y = TBoolean then prim_eq x (PNum (prim_number y))
      else False)"
  by pat_completeness auto
termination
  by (relation "measure (\<lambda>(x, y).
      (case type_of x of TBoolean \<Rightarrow> 1 | TString \<Rightarrow> 1 | _ \<Rightarrow> 0)
    + (case type_of y of TBoolean \<Rightarrow> 1 | TString \<Rightarrow> 1 | _ \<Rightarrow> (0::nat)))") auto

declare prim_eq.simps [simp del]

text \<open>
  \<^verbatim>\<open>x == y\<close>. Two objects are equal only when they are one and the same; the
  evaluator compares a value read from the context with a literal it has just
  parsed, which never are. An object is not equal to \<^verbatim>\<open>null\<close> or \<^verbatim>\<open>undefined\<close>,
  and is converted to a primitive to be compared with any other primitive.
\<close>

definition IsLooselyEqual :: "runtime \<Rightarrow> jsval \<Rightarrow> jsval \<Rightarrow> string + bool" where
  "IsLooselyEqual rt x y =
     (case (as_prim x, as_prim y) of
        (Some p, Some q) \<Rightarrow> Inr (prim_eq p q)
      | (None, None) \<Rightarrow> Inr False
      | (None, Some q) \<Rightarrow>
          if q = PUndefined \<or> q = PNull then Inr False
          else (case objectToPrimitive rt HintDefault x of
                  Inl err \<Rightarrow> Inl err | Inr p \<Rightarrow> Inr (prim_eq p q))
      | (Some p, None) \<Rightarrow>
          if p = PUndefined \<or> p = PNull then Inr False
          else (case objectToPrimitive rt HintDefault y of
                  Inl err \<Rightarrow> Inl err | Inr q \<Rightarrow> Inr (prim_eq p q)))"

text \<open>
  \<open>IsLessThan\<close>, the comparison behind \<^verbatim>\<open><\<close>, \<^verbatim>\<open>>\<close>, \<^verbatim>\<open><=\<close> and \<^verbatim>\<open>>=\<close>: both
  operands are made primitive, the left operand of the expression first; two strings
  compare as strings, anything else as numbers. \<open>None\<close> is the result \<^verbatim>\<open>undefined\<close>.
\<close>

definition prim_lt :: "prim \<Rightarrow> prim \<Rightarrow> bool option" where
  "prim_lt p q =
     (case (p, q) of
        (PStr a, PStr b) \<Rightarrow> Some (string_lt a b)
      | _ \<Rightarrow> num_lt (prim_number p) (prim_number q))"

definition IsLessThan :: "runtime \<Rightarrow> bool \<Rightarrow> jsval \<Rightarrow> jsval \<Rightarrow> string + bool option" where
  "IsLessThan rt leftFirst x y =
     (if leftFirst then
        (case ToPrimitive rt HintNumber x of
           Inl err \<Rightarrow> Inl err
         | Inr px \<Rightarrow> (case ToPrimitive rt HintNumber y of
                        Inl err \<Rightarrow> Inl err | Inr py \<Rightarrow> Inr (prim_lt px py)))
      else
        (case ToPrimitive rt HintNumber y of
           Inl err \<Rightarrow> Inl err
         | Inr py \<Rightarrow> (case ToPrimitive rt HintNumber x of
                        Inl err \<Rightarrow> Inl err | Inr px \<Rightarrow> Inr (prim_lt px py))))"

text \<open>\<^verbatim>\<open>a < b\<close>, \<^verbatim>\<open>a > b\<close>, \<^verbatim>\<open>a <= b\<close>, \<^verbatim>\<open>a >= b\<close>\<close>

definition js_lt :: "runtime \<Rightarrow> jsval \<Rightarrow> jsval \<Rightarrow> string + bool" where
  "js_lt rt a b = map_sum (\<lambda>e. e) (\<lambda>r. r = Some True) (IsLessThan rt True a b)"

definition js_gt :: "runtime \<Rightarrow> jsval \<Rightarrow> jsval \<Rightarrow> string + bool" where
  "js_gt rt a b = map_sum (\<lambda>e. e) (\<lambda>r. r = Some True) (IsLessThan rt False b a)"

definition js_le :: "runtime \<Rightarrow> jsval \<Rightarrow> jsval \<Rightarrow> string + bool" where
  "js_le rt a b = map_sum (\<lambda>e. e) (\<lambda>r. r = Some False) (IsLessThan rt False b a)"

definition js_ge :: "runtime \<Rightarrow> jsval \<Rightarrow> jsval \<Rightarrow> string + bool" where
  "js_ge rt a b = map_sum (\<lambda>e. e) (\<lambda>r. r = Some False) (IsLessThan rt True a b)"

subsection \<open>Property access\<close>

text \<open>An array index is a decimal string without a leading zero.\<close>

definition array_index :: "string \<Rightarrow> nat option" where
  "array_index k =
     (if all_digits 10 k \<and> (k = ''0'' \<or> \<not> starts_with k ''0'')
      then Some (nat (digits_value 10 k)) else None)"

text \<open>The properties that a value holds itself.\<close>

fun own_prop :: "jsval \<Rightarrow> string \<Rightarrow> jsval option" where
  "own_prop (JObj kvs) k = map_of kvs k"
| "own_prop (JArr xs) k =
     (if k = ''length'' then Some (JNum (Fin (of_nat (length xs))))
      else case array_index k of
             Some i \<Rightarrow> if i < length xs then Some (xs ! i) else None
           | None \<Rightarrow> None)"
| "own_prop (JStr s) k =
     (if k = ''length'' then Some (JNum (Fin (of_nat (length s))))
      else case array_index k of
             Some i \<Rightarrow> if i < length s then Some (JStr [s ! i]) else None
           | None \<Rightarrow> None)"
| "own_prop v k = None"

text \<open>
  The names of the properties of \<^verbatim>\<open>Object.prototype\<close>, which every plain object
  inherits (ECMA-262, 20.1.3 and B.2.2).
\<close>

definition object_prototype_keys :: "string list" where
  "object_prototype_keys =
     [''constructor'', ''hasOwnProperty'', ''isPrototypeOf'', ''propertyIsEnumerable'',
      ''toLocaleString'', ''toString'', ''valueOf'', ''__proto__'', ''__defineGetter__'',
      ''__defineSetter__'', ''__lookupGetter__'', ''__lookupSetter__'']"

text \<open>
  \<^verbatim>\<open>v[k]\<close> on a value that is neither \<^verbatim>\<open>null\<close> nor \<^verbatim>\<open>undefined\<close>: the own
  property when there is one, else what the prototype chain gives. For a plain object
  the chain is \<^verbatim>\<open>Object.prototype\<close> alone: a name that is not one of its properties
  reads as \<^verbatim>\<open>undefined\<close>, and one that is reads as the runtime has it (a function,
  or the result of a getter). For every other value the chain is left to the runtime.
\<close>

definition get_prop :: "runtime \<Rightarrow> jsval \<Rightarrow> string \<Rightarrow> string + jsval" where
  "get_prop rt v k =
     (case own_prop v k of
        Some x \<Rightarrow> Inr x
      | None \<Rightarrow>
          (case v of
             JObj kvs \<Rightarrow>
               if k \<in> set object_prototype_keys then protoGet rt v k else Inr JUndefined
           | _ \<Rightarrow> protoGet rt v k))"

definition nullish :: "jsval \<Rightarrow> bool" where
  "nullish v = (v = JUndefined \<or> v = JNull)"

text \<open>\<^verbatim>\<open>v?.[k]\<close>\<close>

definition opt_get :: "runtime \<Rightarrow> jsval \<Rightarrow> string \<Rightarrow> string + jsval" where
  "opt_get rt v k = (if nullish v then Inr JUndefined else get_prop rt v k)"

text \<open>\<^verbatim>\<open>v.k\<close>, which throws a TypeError on \<^verbatim>\<open>null\<close> and \<^verbatim>\<open>undefined\<close>.\<close>

definition member :: "runtime \<Rightarrow> jsval \<Rightarrow> string \<Rightarrow> string + jsval" where
  "member rt v k =
     (if nullish v
      then Inl (''Cannot read properties of '' @ (if v = JNull then ''null'' else ''undefined'')
                @ '' (reading '' @ [CHR 0x27] @ k @ [CHR 0x27] @ '')'')
      else get_prop rt v k)"

text \<open>
  Object spread \<^verbatim>\<open>{...v, k: x}\<close>: the own enumerable properties of \<open>v\<close> (none for
  a primitive other than a string), then \<open>k\<close> set, in place when it is there.
\<close>

fun nat_to_string :: "nat \<Rightarrow> string" where
  "nat_to_string n =
     (if n < 10 then [char_of (48 + n)]
      else nat_to_string (n div 10) @ [char_of (48 + n mod 10)])"

fun own_entries :: "runtime \<Rightarrow> jsval \<Rightarrow> (string \<times> jsval) list" where
  "own_entries rt (JObj kvs) = kvs"
| "own_entries rt (JArr xs) = zip (map nat_to_string [0..<length xs]) xs"
| "own_entries rt (JStr s) = zip (map nat_to_string [0..<length s]) (map (\<lambda>c. JStr [c]) s)"
| "own_entries rt (JOpaque n) = opaqueEntries rt n"
| "own_entries rt v = []"

fun obj_set :: "(string \<times> jsval) list \<Rightarrow> string \<Rightarrow> jsval \<Rightarrow> (string \<times> jsval) list" where
  "obj_set [] k x = [(k, x)]"
| "obj_set ((k', v) # kvs) k x =
     (if k' = k then (k, x) # kvs else (k', v) # obj_set kvs k x)"

definition spread_with :: "runtime \<Rightarrow> jsval \<Rightarrow> string \<Rightarrow> jsval \<Rightarrow> jsval" where
  "spread_with rt v k x = JObj (obj_set (own_entries rt v) k x)"

section \<open>The condition evaluator\<close>

text \<open>
  \<^verbatim>\<open>evaluateSimpleCondition\<close>, \<^verbatim>\<open>getContextValue\<close>, \<^verbatim>\<open>parseValue\<close> and
  \<^verbatim>\<open>compareValues\<close> of \<^verbatim>\<open>AgentExecutor\<close>. A property read or a comparison may throw;
  the result is then \<open>Inl\<close> of the message.
\<close>

definition operators :: "string list" where
  "operators = [''=='', ''!='', ''>'', ''<'', ''>='', ''<='']"

text \<open>\<^verbatim>\<open>for (const k of keys) value = value?.[k]\<close>\<close>

fun walk_keys :: "runtime \<Rightarrow> jsval \<Rightarrow> string list \<Rightarrow> string + jsval" where
  "walk_keys rt v [] = Inr v"
| "walk_keys rt v (k # ks) =
     (case opt_get rt v k of Inl err \<Rightarrow> Inl err | Inr x \<Rightarrow> walk_keys rt x ks)"

definition getContextValue :: "runtime \<Rightarrow> string \<Rightarrow> jsval \<Rightarrow> string + jsval" where
  "getContextValue rt key context = walk_keys rt context (split_str key ''.'')"

definition is_quote :: "char \<Rightarrow> bool" where
  "is_quote c = (c = CHR 0x27 \<or> c = CHR 0x22)"

text \<open>\<^verbatim>\<open>value.replace(/['"]/g, '')\<close>\<close>

fun remove_quotes :: "string \<Rightarrow> string" where
  "remove_quotes [] = []"
| "remove_quotes (c # cs) = (if is_quote c then remove_quotes cs else c # remove_quotes cs)"

definition parseValue :: "string \<Rightarrow> jsval" where
  "parseValue value =
     (let v = remove_quotes value in
      if StringToNumber v \<noteq> NaN then JNum (StringToNumber v)
      else if v = ''true'' then JBool True
      else if v = ''false'' then JBool False
      else JStr v)"

definition compareValues :: "runtime \<Rightarrow> jsval \<Rightarrow> jsval \<Rightarrow> string \<Rightarrow> string + bool" where
  "compareValues rt left right operator =
     (if operator = ''=='' then IsLooselyEqual rt left right
      else if operator = ''!='' then map_sum (\<lambda>e. e) Not (IsLooselyEqual rt left right)
      else if operator = ''>'' then js_gt rt left right
      else if operator = ''<'' then js_lt rt left right
      else if operator = ''>='' then js_ge rt left right
      else if operator = ''<='' then js_le rt left right
      else Inr False)"

text \<open>
  The loop over \<open>operators\<close> returns at the first operator the condition includes.
  \<^verbatim>\<open>const [left, right] = condition.split(op).map(s => s.trim())\<close> takes the first
  two pieces; an included operator always gives at least two (lemma
  \<open>split_str_two\<close> below), so the last case is never reached.
\<close>

definition evaluateSimpleCondition :: "runtime \<Rightarrow> string \<Rightarrow> jsval \<Rightarrow> string + bool" where
  "evaluateSimpleCondition rt condition context =
     (case find (includes_str condition) operators of
        None \<Rightarrow> Inr False
      | Some op \<Rightarrow>
          (case map trim (split_str condition op) of
             left # right # rest \<Rightarrow>
               (case getContextValue rt left context of
                  Inl err \<Rightarrow> Inl err
                | Inr leftValue \<Rightarrow> compareValues rt leftValue (parseValue right) op)
           | _ \<Rightarrow> Inr False))"

section \<open>Graphs, the environment and the run state\<close>

text \<open>
  A node is stored as JSON with the fields \<^verbatim>\<open>id\<close>, \<^verbatim>\<open>type\<close> and \<^verbatim>\<open>data\<close> of the
  interface \<^verbatim>\<open>Node\<close>; \<open>node_props\<close> holds whatever other top-level fields the stored
  node has (the handler \<^verbatim>\<open>apiCallNode\<close> reads some). \<open>node_value\<close> is the node as the
  object that a handler is given.
\<close>

record node =
  node_id :: string
  node_type :: string
  node_data :: jsval
  node_props :: "(string \<times> jsval) list"

record edge =
  edge_id :: string
  source :: string
  target :: string

definition node_value :: "node \<Rightarrow> jsval" where
  "node_value n =
     JObj ([(''id'', JStr (node_id n)), (''type'', JStr (node_type n)), (''data'', node_data n)]
           @ node_props n)"

text \<open>The configuration object given to \<^verbatim>\<open>axios\<close>, and the fields read of its response.\<close>

record request =
  req_method :: jsval
  req_url :: jsval
  req_headers :: jsval
  req_data :: jsval
  req_timeout :: "nat option"

record response =
  res_status :: jsval
  res_data :: jsval
  res_headers :: jsval

text \<open>
  A promise that is awaited either never settles (\<open>None\<close>), is rejected (\<open>Inl\<close> of the
  error's message) or is fulfilled (\<open>Inr\<close> of the value).
\<close>

type_synonym 'a promise = "(string + 'a) option"

text \<open>
  What the executor calls and this repository's sources do not define: the runtime,
  the HTTP client, the handlers imported from \<^verbatim>\<open>./nodes/triggerNode\<close>,
  \<^verbatim>\<open>./nodes/conditionNode\<close> and \<^verbatim>\<open>./nodes/aiActionNode\<close>, and the store behind the
  model \<^verbatim>\<open>Execution\<close>. Each is a parameter. Of the store, \<open>store_update k\<close> is the
  outcome of the \<open>k\<close>-th call of \<^verbatim>\<open>Execution.findByIdAndUpdate\<close> of the run and
  \<open>store_save k\<close> the outcome of the \<open>k\<close>-th call of \<^verbatim>\<open>execution.save\<close>, both
  counted from 0.
\<close>

record env =
  runtime :: runtime
  axios :: "request \<Rightarrow> response promise"
  triggerNode :: "node \<Rightarrow> jsval \<Rightarrow> jsval promise"
  conditionNode :: "node \<Rightarrow> jsval \<Rightarrow> jsval promise"
  aiActionNode :: "node \<Rightarrow> jsval \<Rightarrow> jsval promise"
  store_update :: "nat \<Rightarrow> unit promise"
  store_save :: "nat \<Rightarrow> unit promise"

datatype level = Info | Warning | Error

record log_entry =
  log_level :: level
  log_message :: string
  log_data :: jsval

datatype exec_status = Running | Completed | Failed

datatype console_line = ConsoleLog string jsval | ConsoleError string jsval

text \<open>
  The state of a run: the fields \<open>status\<close> and \<open>error\<close> of the Execution document
  that \<^verbatim>\<open>executeAgentWorkflow\<close> holds, the arrays \<open>logs\<close> and \<open>results\<close> of the
  document in the store, the statuses that the calls of \<^verbatim>\<open>execution.save()\<close> wrote
  to the store (\<open>saved\<close>), the console, and the numbers of calls made to the store so
  far. Wall-clock readings (\<^verbatim>\<open>new Date()\<close>: \<open>startTime\<close>, \<open>endTime\<close>,
  \<open>duration\<close>, the time stamp of a log entry) are left out.
\<close>

record run_state =
  agentId :: string
  userId :: string
  status :: exec_status
  error :: "string option"
  logs :: "log_entry list"
  results :: "jsval list"
  saved :: "exec_status list"
  console :: "console_line list"
  update_calls :: nat
  save_calls :: nat

text \<open>
  An asynchronous function of the executor, run from a state: it does not return
  (\<open>None\<close>), or it ends in a new state, having thrown (\<open>Inl\<close> of the message of
  the error) or returned a value (\<open>Inr\<close>).
\<close>

type_synonym 'a outcome = "(string + 'a) \<times> run_state"

type_synonym 'a action = "run_state \<Rightarrow> 'a outcome option"

text \<open>\<^verbatim>\<open>return x\<close> and \<^verbatim>\<open>throw\<close>\<close>

definition return_act :: "'a \<Rightarrow> 'a action" where
  "return_act x s = Some (Inr x, s)"

definition throw_act :: "string \<Rightarrow> 'a action" where
  "throw_act err s = Some (Inl err, s)"

text \<open>\<^verbatim>\<open>const x = await m; f(x)\<close>: what \<open>m\<close> throws is thrown on.\<close>

definition then_act :: "'a action \<Rightarrow> ('a \<Rightarrow> 'b action) \<Rightarrow> 'b action" where
  "then_act m f s =
     (case m s of
        None \<Rightarrow> None
      | Some (Inl err, s') \<Rightarrow> Some (Inl err, s')
      | Some (Inr x, s') \<Rightarrow> f x s')"

text \<open>\<^verbatim>\<open>try { m } catch (error) { h(error.message) }\<close>\<close>

definition catch_act :: "'a action \<Rightarrow> (string \<Rightarrow> 'a action) \<Rightarrow> 'a action" where
  "catch_act m h s =
     (case m s of
        None \<Rightarrow> None
      | Some (Inl err, s') \<Rightarrow> h err s'
      | Some (Inr x, s') \<Rightarrow> Some (Inr x, s'))"

text \<open>Awaiting a promise of the environment, and evaluating an expression that may throw.\<close>

definition await :: "'a promise \<Rightarrow> 'a action" where
  "await p s = (case p of None \<Rightarrow> None | Some r \<Rightarrow> Some (r, s))"

definition eval_act :: "string + 'a \<Rightarrow> 'a action" where
  "eval_act r s = Some (r, s)"

section \<open>The executor\<close>

fun level_upper :: "level \<Rightarrow> string" where
  "level_upper Info = ''INFO''"
| "level_upper Warning = ''WARNING''"
| "level_upper Error = ''ERROR''"

text \<open>\<^verbatim>\<open>console.log\<close> and \<^verbatim>\<open>console.error\<close>\<close>

definition console_write :: "console_line \<Rightarrow> unit action" where
  "console_write l s = Some (Inr (), s\<lparr>console := console s @ [l]\<rparr>)"

text \<open>
  \<^verbatim>\<open>await Execution.findByIdAndUpdate(this.executionId, { $push: ... })\<close>: when the
  store fulfils the call the push \<open>upd\<close> has been made, when it rejects the call
  nothing has. (The document is in the store: \<^verbatim>\<open>executeAgentWorkflow\<close> makes the
  executor after the first \<^verbatim>\<open>save\<close> was fulfilled.)
\<close>

definition findByIdAndUpdate :: "env \<Rightarrow> (run_state \<Rightarrow> run_state) \<Rightarrow> unit action" where
  "findByIdAndUpdate env upd s =
     (case store_update env (update_calls s) of
        None \<Rightarrow> None
      | Some (Inl err) \<Rightarrow> Some (Inl err, s\<lparr>update_calls := Suc (update_calls s)\<rparr>)
      | Some (Inr u) \<Rightarrow> Some (Inr (), upd (s\<lparr>update_calls := Suc (update_calls s)\<rparr>)))"

text \<open>\<^verbatim>\<open>AgentExecutor.log\<close>\<close>

definition log_exec :: "env \<Rightarrow> level \<Rightarrow> string \<Rightarrow> jsval \<Rightarrow> unit action" where
  "log_exec env lv msg d =
     catch_act
       (then_act
          (findByIdAndUpdate env
            (\<lambda>s. s\<lparr>logs := logs s @ [\<lparr>log_level = lv, log_message = msg, log_data = d\<rparr>]\<rparr>))
          (\<lambda>u. console_write
                 (ConsoleLog (''['' @ level_upper lv @ ''] '' @ msg) (js_or d (JStr [])))))
       (\<lambda>err. console_write (ConsoleError ''Failed to log:'' (JStr err)))"

text \<open>\<^verbatim>\<open>AgentExecutor.addResult\<close>\<close>

definition addResult :: "env \<Rightarrow> jsval \<Rightarrow> unit action" where
  "addResult env result =
     catch_act
       (findByIdAndUpdate env (\<lambda>s. s\<lparr>results := results s @ [result]\<rparr>))
       (\<lambda>err. console_write (ConsoleError ''Failed to add result:'' (JStr err)))"

text \<open>The template \<^verbatim>\<open>${node.data.label || node.type}\<close>.\<close>

definition node_label :: "env \<Rightarrow> node \<Rightarrow> string + string" where
  "node_label env n =
     (case member (runtime env) (node_data n) ''label'' of
        Inl err \<Rightarrow> Inl err
      | Inr l \<Rightarrow> ToString (runtime env) (js_or l (JStr (node_type n))))"

text \<open>
  \<^verbatim>\<open>apiCallNode\<close> (\<^verbatim>\<open>nodes/apiCallNode\<close>). \<open>api_request\<close> is the object it gives to
  \<^verbatim>\<open>axios\<close>, its fields read in the order of the object literal.
\<close>

definition api_request :: "runtime \<Rightarrow> node \<Rightarrow> string + request" where
  "api_request rt n =
     (case get_prop rt (node_value n) ''method'' of
        Inl err \<Rightarrow> Inl err
      | Inr m \<Rightarrow>
     (case get_prop rt (node_value n) ''url'' of
        Inl err \<Rightarrow> Inl err
      | Inr u \<Rightarrow>
     (case get_prop rt (node_value n) ''body'' of
        Inl err \<Rightarrow> Inl err
      | Inr b \<Rightarrow>
     (case get_prop rt (node_value n) ''headers'' of
        Inl err \<Rightarrow> Inl err
      | Inr h \<Rightarrow>
          Inr \<lparr>req_method = js_or m (JStr ''GET''), req_url = u,
               req_headers = js_or h (JObj []), req_data = js_or b (JObj []),
               req_timeout = None\<rparr>))))"

definition apiCallNode :: "env \<Rightarrow> node \<Rightarrow> jsval \<Rightarrow> jsval action" where
  "apiCallNode env n context =
     catch_act
       (then_act (eval_act (api_request (runtime env) n)) (\<lambda>req.
        then_act (await (axios env req)) (\<lambda>res.
        return_act (spread_with (runtime env) context ''apiResult'' (res_data res)))))
       (\<lambda>msg. then_act (console_write (ConsoleError ''API Node Failed'' (JStr msg)))
                (\<lambda>u. return_act context))"

text \<open>The \<^verbatim>\<open>switch (node.type)\<close> of \<^verbatim>\<open>executeNode\<close>.\<close>

definition dispatch :: "env \<Rightarrow> node \<Rightarrow> jsval \<Rightarrow> jsval action" where
  "dispatch env n context =
     (let t = node_type n in
      if t = ''trigger'' \<or> t = ''scheduleTrigger'' \<or> t = ''webhookTrigger''
        then await (triggerNode env n context)
      else if t = ''apiCall'' \<or> t = ''action'' then apiCallNode env n context
      else if t = ''condition'' \<or> t = ''ifElse'' then await (conditionNode env n context)
      else if t = ''aiProcess'' \<or> t = ''aiAction'' then await (aiActionNode env n context)
      else then_act (log_exec env Warning (''Unknown node type: '' @ t) JUndefined)
             (\<lambda>u. return_act context))"

text \<open>The object given to \<^verbatim>\<open>addResult\<close>; \<open>l\<close> is what \<^verbatim>\<open>node.data.label\<close> reads.\<close>

definition NodeResult :: "node \<Rightarrow> jsval \<Rightarrow> jsval \<Rightarrow> jsval" where
  "NodeResult n l result =
     JObj [(''nodeId'', JStr (node_id n)), (''nodeType'', JStr (node_type n)),
           (''nodeLabel'', l), (''result'', result)]"

text \<open>
  \<^verbatim>\<open>for (const edge of nextEdges) await this.executeNode(edge.target, result)\<close>, with
  the recursive call as the argument \<open>exec\<close>.
\<close>

fun for_edges :: "(string \<Rightarrow> jsval \<Rightarrow> jsval action) \<Rightarrow> edge list \<Rightarrow> jsval \<Rightarrow> unit action" where
  "for_edges exec [] result = return_act ()"
| "for_edges exec (e # es) result =
     then_act (exec (target e) result) (\<lambda>r. for_edges exec es result)"

text \<open>
  The body of \<^verbatim>\<open>executeNode\<close> for the node \<open>n\<close> that \<^verbatim>\<open>find\<close> returned: the log
  line, the handler of the node's type, the result, and then every outgoing edge.
\<close>

definition visit ::
  "env \<Rightarrow> edge list \<Rightarrow> (string \<Rightarrow> jsval \<Rightarrow> jsval action) \<Rightarrow> string \<Rightarrow> node \<Rightarrow> jsval
    \<Rightarrow> jsval action" where
  "visit env edges exec nodeId n context =
     then_act (eval_act (node_label env n)) (\<lambda>lbl.
     then_act (log_exec env Info (''Executing node: '' @ lbl) JUndefined) (\<lambda>u.
     then_act (dispatch env n context) (\<lambda>result.
     then_act (eval_act (member (runtime env) (node_data n) ''label'')) (\<lambda>l.
     then_act (addResult env (NodeResult n l result)) (\<lambda>u.
     then_act (for_edges exec (filter (\<lambda>e. source e = nodeId) edges) result) (\<lambda>u.
     return_act result))))))"

text \<open>
  \<^verbatim>\<open>executeNode\<close>. The recursion follows the edges of the graph, which may have a
  cycle, so the model counts the depth of the calls down from \<open>fuel\<close>: \<open>None\<close> says that
  this depth was not enough.
\<close>

fun executeNode ::
  "env \<Rightarrow> node list \<Rightarrow> edge list \<Rightarrow> nat \<Rightarrow> string \<Rightarrow> jsval \<Rightarrow> jsval action" where
  "executeNode env nodes edges 0 nodeId context = (\<lambda>s. None)"
| "executeNode env nodes edges (Suc fuel) nodeId context =
     (case find (\<lambda>n. node_id n = nodeId) nodes of
        None \<Rightarrow> return_act context
      | Some n \<Rightarrow> visit env edges (executeNode env nodes edges fuel) nodeId n context)"

definition is_trigger :: "node \<Rightarrow> bool" where
  "is_trigger n =
     (node_type n = ''trigger'' \<or> node_type n = ''scheduleTrigger''
      \<or> node_type n = ''webhookTrigger'')"

text \<open>The \<^verbatim>\<open>catch\<close> block of \<^verbatim>\<open>execute\<close>: log the failure, throw the error again.\<close>

definition execute_failed :: "env \<Rightarrow> string \<Rightarrow> jsval action" where
  "execute_failed env err =
     then_act (log_exec env Error ''Agent execution failed'' (JObj [(''error'', JStr err)]))
       (\<lambda>u. throw_act err)"

text \<open>
  \<^verbatim>\<open>AgentExecutor.execute\<close>; \<open>run_from\<close> is its \<^verbatim>\<open>try\<close> block from the trigger
  that \<^verbatim>\<open>find\<close> returned onwards.
\<close>

definition run_from :: "env \<Rightarrow> node list \<Rightarrow> edge list \<Rightarrow> nat \<Rightarrow> node \<Rightarrow> jsval action" where
  "run_from env nodes edges fuel t =
     then_act (eval_act (node_label env t)) (\<lambda>lbl.
     then_act (log_exec env Info (''Trigger found: '' @ lbl) JUndefined) (\<lambda>u.
     then_act (executeNode env nodes edges fuel (node_id t) (JObj [])) (\<lambda>results.
     then_act (log_exec env Info ''Agent execution completed successfully'' JUndefined) (\<lambda>u.
     return_act results))))"

definition execute :: "env \<Rightarrow> node list \<Rightarrow> edge list \<Rightarrow> nat \<Rightarrow> jsval action" where
  "execute env nodes edges fuel =
     catch_act
       (then_act (log_exec env Info ''Starting agent execution'' JUndefined) (\<lambda>u.
          case find is_trigger nodes of
            None \<Rightarrow> throw_act ''No trigger node found''
          | Some t \<Rightarrow> run_from env nodes edges fuel t))
       (execute_failed env)"

text \<open>\<^verbatim>\<open>new Execution({agentId, userId, status: 'running', ...})\<close>\<close>

definition new_execution :: "string \<Rightarrow> string \<Rightarrow> run_state" where
  "new_execution a u =
     \<lparr>agentId = a, userId = u, status = Running, error = None, logs = [], results = [],
      saved = [], console = [], update_calls = 0, save_calls = 0\<rparr>"

text \<open>
  \<^verbatim>\<open>await execution.save()\<close>: when the store fulfils the call it holds the status
  of the document, when it rejects the call the error is thrown.
\<close>

definition save :: "env \<Rightarrow> unit action" where
  "save env s =
     (case store_save env (save_calls s) of
        None \<Rightarrow> None
      | Some (Inl err) \<Rightarrow> Some (Inl err, s\<lparr>save_calls := Suc (save_calls s)\<rparr>)
      | Some (Inr u) \<Rightarrow>
          Some (Inr (), s\<lparr>save_calls := Suc (save_calls s), saved := saved s @ [status s]\<rparr>))"

text \<open>An assignment to the fields of the document, as \<^verbatim>\<open>execution.status = 'failed'\<close>.\<close>

definition assign :: "(run_state \<Rightarrow> run_state) \<Rightarrow> unit action" where
  "assign f s = Some (Inr (), f s)"

text \<open>
  \<^verbatim>\<open>executeAgentWorkflow\<close>. The first \<^verbatim>\<open>save\<close> stands before the \<^verbatim>\<open>try\<close>, the
  one that writes \<^verbatim>\<open>completed\<close> inside it. The value the function resolves to is
  the Execution document; here that is the state of the result.
\<close>

definition executeAgentWorkflow ::
  "env \<Rightarrow> nat \<Rightarrow> string \<Rightarrow> string \<Rightarrow> node list \<Rightarrow> edge list \<Rightarrow> unit outcome option" where
  "executeAgentWorkflow env fuel a u nodes edges =
     then_act (save env) (\<lambda>v.
       catch_act
         (then_act (execute env nodes edges fuel) (\<lambda>r.
          then_act (assign (\<lambda>s. s\<lparr>status := Completed\<rparr>)) (\<lambda>v.
          save env)))
         (\<lambda>err.
          then_act (assign (\<lambda>s. s\<lparr>status := Failed, error := Some err\<rparr>)) (\<lambda>v.
          then_act (save env) (\<lambda>v.
          throw_act err))))
       (new_execution a u)"

subsection \<open>Methods of the class that \<^verbatim>\<open>executeNode\<close> does not call\<close>

text \<open>
  \<^verbatim>\<open>executeCondition\<close> and \<^verbatim>\<open>executeApiCall\<close> are private methods of
  \<^verbatim>\<open>AgentExecutor\<close>; the \<^verbatim>\<open>switch\<close> of \<^verbatim>\<open>executeNode\<close> goes to the imported
  handlers instead, and nothing else calls them.
\<close>

text \<open>A destructuring default: \<^verbatim>\<open>const { k = d } = obj\<close> takes \<open>d\<close> for \<^verbatim>\<open>undefined\<close> only.\<close>

definition with_default :: "jsval \<Rightarrow> jsval \<Rightarrow> jsval" where
  "with_default v d = (if v = JUndefined then d else v)"

text \<open>
  \<^verbatim>\<open>const { k, ... } = node.data\<close> reads the property \<open>k\<close> of \<^verbatim>\<open>node.data\<close>, and
  throws a TypeError when \<^verbatim>\<open>node.data\<close> is \<^verbatim>\<open>null\<close> or \<^verbatim>\<open>undefined\<close>.
\<close>

definition destructure :: "runtime \<Rightarrow> jsval \<Rightarrow> string \<Rightarrow> string \<Rightarrow> string + jsval" where
  "destructure rt v first k =
     (if nullish v
      then Inl (''Cannot destructure property '' @ [CHR 0x27] @ first @ [CHR 0x27] @ '' of ''
                @ [CHR 0x27] @ ''node.data'' @ [CHR 0x27] @ '' as it is ''
                @ (if v = JNull then ''null'' else ''undefined'') @ ''.'')
      else get_prop rt v k)"

text \<open>\<^verbatim>\<open>xs[i]\<close> on an array: \<open>None\<close> is \<^verbatim>\<open>undefined\<close>.\<close>

definition nth_opt :: "'a list \<Rightarrow> nat \<Rightarrow> 'a option" where
  "nth_opt xs i = (if i < length xs then Some (xs ! i) else None)"

text \<open>
  \<^verbatim>\<open>evaluateSimpleCondition\<close> is typed for a string, but \<^verbatim>\<open>executeCondition\<close> hands
  it whatever truthy value \<^verbatim>\<open>node.data.condition\<close> holds. An array has
  \<^verbatim>\<open>includes\<close> and no \<^verbatim>\<open>split\<close>; a number, a boolean and a plain object have
  neither; what an opaque object has is not known, and its outcome is left open:
  \<open>other\<close> is what the call does then.
\<close>

definition evaluate_any :: "runtime \<Rightarrow> (string + bool) \<Rightarrow> jsval \<Rightarrow> jsval \<Rightarrow> string + bool" where
  "evaluate_any rt other condition context =
     (case condition of
        JStr c \<Rightarrow> evaluateSimpleCondition rt c context
      | JArr xs \<Rightarrow>
          if list_ex (\<lambda>op. JStr op \<in> set xs) operators
          then Inl ''condition.split is not a function'' else Inr False
      | JOpaque n \<Rightarrow> other
      | _ \<Rightarrow> Inl ''condition.includes is not a function'')"

text \<open>
  \<^verbatim>\<open>executeCondition\<close>; \<open>rnd\<close> is the outcome of \<^verbatim>\<open>Math.random() > 0.5\<close>.
  \<open>conditionMet_of\<close> is its \<^verbatim>\<open>try\<close> block with the \<^verbatim>\<open>catch\<close>.
\<close>

definition conditionMet_of ::
  "env \<Rightarrow> bool \<Rightarrow> (string + bool) \<Rightarrow> jsval \<Rightarrow> jsval \<Rightarrow> jsval \<Rightarrow> bool action" where
  "conditionMet_of env rnd other condition conditionType context =
     catch_act
       (if conditionType = JStr ''simple'' \<and> truthy condition
        then eval_act (evaluate_any (runtime env) other condition context)
        else return_act rnd)
       (\<lambda>err. then_act
                (log_exec env Error (''Condition evaluation failed: '' @ err) JUndefined)
                (\<lambda>u. return_act False))"

definition executeCondition ::
  "env \<Rightarrow> node list \<Rightarrow> edge list \<Rightarrow> nat \<Rightarrow> bool \<Rightarrow> (string + bool) \<Rightarrow> node \<Rightarrow> jsval
    \<Rightarrow> jsval action" where
  "executeCondition env nodes edges fuel rnd other n context =
     then_act (eval_act (destructure (runtime env) (node_data n) ''condition'' ''condition''))
       (\<lambda>condition.
     then_act (eval_act (destructure (runtime env) (node_data n) ''condition'' ''conditionType''))
       (\<lambda>ct.
     then_act (eval_act (ToString (runtime env) (js_or condition (JStr ''No condition specified''))))
       (\<lambda>shown.
     then_act (log_exec env Info (''Evaluating condition: '' @ shown) JUndefined) (\<lambda>u.
     then_act (conditionMet_of env rnd other condition (with_default ct (JStr ''simple''))
                 context) (\<lambda>conditionMet.
     then_act (log_exec env Info
                 (''Condition result: '' @ (if conditionMet then ''TRUE'' else ''FALSE''))
                 JUndefined) (\<lambda>u.
       let nextEdges = filter (\<lambda>e. source e = node_id n) edges;
           nextEdge = (case nth_opt nextEdges (if conditionMet then 0 else 1) of
                         Some e \<Rightarrow> Some e
                       | None \<Rightarrow> nth_opt nextEdges 0)
       in case nextEdge of
            Some e \<Rightarrow>
              executeNode env nodes edges fuel (target e)
                (spread_with (runtime env) context ''conditionResult'' (JBool conditionMet))
          | None \<Rightarrow> return_act context))))))"

text \<open>
  \<^verbatim>\<open>executeApiCall\<close>; \<open>now\<close> is \<^verbatim>\<open>new Date().toISOString()\<close>. \<open>api_call_request\<close>
  is the object it gives to \<^verbatim>\<open>axios\<close>.
\<close>

definition simulated_response :: "runtime \<Rightarrow> jsval \<Rightarrow> string \<Rightarrow> jsval" where
  "simulated_response rt context now =
     spread_with rt context ''apiResponse''
       (JObj [(''status'', JNum (Fin 200)),
              (''data'', JObj [(''message'', JStr ''API call simulated (no URL provided)''),
                               (''timestamp'', JStr now)])])"

definition api_call_request :: "jsval \<Rightarrow> jsval \<Rightarrow> jsval \<Rightarrow> jsval \<Rightarrow> request" where
  "api_call_request url method headers body =
     \<lparr>req_method = with_default method (JStr ''GET''), req_url = url,
      req_headers = with_default headers (JObj []), req_data = body,
      req_timeout = Some 30000\<rparr>"

definition executeApiCall :: "env \<Rightarrow> string \<Rightarrow> node \<Rightarrow> jsval \<Rightarrow> jsval action" where
  "executeApiCall env now n context =
     then_act (eval_act (destructure (runtime env) (node_data n) ''url'' ''url'')) (\<lambda>url.
     then_act (eval_act (destructure (runtime env) (node_data n) ''url'' ''method'')) (\<lambda>method.
     then_act (eval_act (destructure (runtime env) (node_data n) ''url'' ''headers'')) (\<lambda>headers.
     then_act (eval_act (destructure (runtime env) (node_data n) ''url'' ''body'')) (\<lambda>body.
     then_act (eval_act (ToString (runtime env) (js_or url (JStr ''No URL specified'')))) (\<lambda>shown.
     then_act (log_exec env Info (''Making API call to: '' @ shown) JUndefined) (\<lambda>u.
     then_act
       (catch_act
          (if truthy url then
             then_act (await (axios env (api_call_request url method headers body))) (\<lambda>res.
             then_act (eval_act (ToString (runtime env) (res_status res))) (\<lambda>st.
             then_act (log_exec env Info (''API call successful: '' @ st) JUndefined) (\<lambda>u.
             return_act
               (Some (spread_with (runtime env) context ''apiResponse''
                        (JObj [(''status'', res_status res), (''data'', res_data res),
                               (''headers'', res_headers res)]))))))
           else return_act None)
          (\<lambda>msg. then_act (log_exec env Error (''API call failed: '' @ msg) JUndefined)
                   (\<lambda>u. return_act None)))
       (\<lambda>returned.
          case returned of
            Some r \<Rightarrow> return_act r
          | None \<Rightarrow> return_act (simulated_response (runtime env) context now))))))))"

section \<open>Notions of the specification\<close>

text \<open>A dotted path: the segments, with a dot between one and the next.\<close>

fun dotted :: "string list \<Rightarrow> string" where
  "dotted [] = []"
| "dotted [k] = k"
| "dotted (k # k' # ks) = k @ ''.'' @ dotted (k' # ks)"

text \<open>
  A graph without a cycle: the nodes can be ranked so that every edge leads to a
  node of a lower rank.
\<close>

definition acyclic_by :: "(string \<Rightarrow> nat) \<Rightarrow> edge list \<Rightarrow> bool" where
  "acyclic_by rank edges = list_all (\<lambda>e. rank (target e) < rank (source e)) edges"

text \<open>
  Every promise of the environment settles: each request, each call of an imported
  handler and each call to the store is fulfilled or rejected.
\<close>

definition settles :: "env \<Rightarrow> bool" where
  "settles env =
     ((\<forall>r. axios env r \<noteq> None)
      \<and> (\<forall>n c. triggerNode env n c \<noteq> None \<and> conditionNode env n c \<noteq> None
            \<and> aiActionNode env n c \<noteq> None)
      \<and> (\<forall>k. store_update env k \<noteq> None) \<and> (\<forall>k. store_save env k \<noteq> None))"

text \<open>The store fulfils every \<^verbatim>\<open>save\<close>; it fulfils every update.\<close>

definition saves_accepted :: "env \<Rightarrow> bool" where
  "saves_accepted env = (\<forall>k. store_save env k = Some (Inr ()))"

definition updates_accepted :: "env \<Rightarrow> bool" where
  "updates_accepted env = (\<forall>k. store_update env k = Some (Inr ()))"

text \<open>No imported handler rejects, for any node and context.\<close>

definition handlers_return :: "env \<Rightarrow> bool" where
  "handlers_return env =
     (\<forall>n c err. triggerNode env n c \<noteq> Some (Inl err) \<and> conditionNode env n c \<noteq> Some (Inl err)
        \<and> aiActionNode env n c \<noteq> Some (Inl err))"

text \<open>
  The data of every node is a plain object whose \<^verbatim>\<open>label\<close> is absent or a
  primitive: reading and printing the label then throws nothing.
\<close>

definition plain_label :: "node \<Rightarrow> bool" where
  "plain_label n =
     (case node_data n of
        JObj kvs \<Rightarrow> (case map_of kvs ''label'' of None \<Rightarrow> True | Some l \<Rightarrow> as_prim l \<noteq> None)
      | _ \<Rightarrow> False)"

definition plain_data :: "node list \<Rightarrow> bool" where
  "plain_data nodes = list_all plain_label nodes"

text \<open>
  The state in which \<^verbatim>\<open>executeAgentWorkflow\<close> ends, from the outcome of
  \<^verbatim>\<open>execute\<close> and the state it left, when the store fulfils the last \<^verbatim>\<open>save\<close>.
\<close>

definition finished :: "string + 'a \<Rightarrow> run_state \<Rightarrow> run_state" where
  "finished out s =
     (case out of
        Inl err \<Rightarrow> s\<lparr>status := Failed, error := Some err, save_calls := Suc (save_calls s),
                      saved := saved s @ [Failed]\<rparr>
      | Inr r \<Rightarrow> s\<lparr>status := Completed, save_calls := Suc (save_calls s),
                    saved := saved s @ [Completed]\<rparr>)"

text \<open>What a run does to the state, when it ends.\<close>

definition preserves :: "(run_state \<Rightarrow> run_state \<Rightarrow> bool) \<Rightarrow> 'a action \<Rightarrow> bool" where
  "preserves R m = (\<forall>s out s'. m s = Some (out, s') \<longrightarrow> R s s')"

text \<open>A run that ends; a run that throws nothing; a run that does all that another does.\<close>

definition returns :: "'a action \<Rightarrow> bool" where
  "returns m = (\<forall>s. m s \<noteq> None)"

definition no_throw :: "'a action \<Rightarrow> bool" where
  "no_throw m = (\<forall>s err s'. m s \<noteq> Some (Inl err, s'))"

definition act_le :: "'a action \<Rightarrow> 'a action \<Rightarrow> bool" where
  "act_le m m' = (\<forall>s p. m s = Some p \<longrightarrow> m' s = Some p)"

text \<open>
  A relation between the state before a call and the state after it that is reflexive
  and transitive and holds across a write to the console, a call to the store that is
  rejected and a log entry.
\<close>

definition step_closed :: "(run_state \<Rightarrow> run_state \<Rightarrow> bool) \<Rightarrow> bool" where
  "step_closed R =
     ((\<forall>s. R s s) \<and> (\<forall>a b c. R a b \<longrightarrow> R b c \<longrightarrow> R a c)
      \<and> (\<forall>l s. R s (s\<lparr>console := console s @ [l]\<rparr>))
      \<and> (\<forall>s. R s (s\<lparr>update_calls := Suc (update_calls s)\<rparr>))
      \<and> (\<forall>e s. R s (s\<lparr>logs := logs s @ [e]\<rparr>)))"

section \<open>Example graphs\<close>

text \<open>
  A runtime that is never consulted by the runs below, an environment whose HTTP
  client refuses every request, whose imported handlers hand the context on and whose
  store fulfils every call, and small graphs to run.
\<close>

definition rt0 :: runtime where
  "rt0 = \<lparr>numberToString = (\<lambda>n. []), protoGet = (\<lambda>v k. Inr JUndefined),
     objectToPrimitive = (\<lambda>h v. Inr (PStr [])), opaqueEntries = (\<lambda>n. [])\<rparr>"

text \<open>
  A runtime that has, of what plain objects inherit, the constructor and its name,
  as every JavaScript runtime does.
\<close>

definition rt_constructor :: runtime where
  "rt_constructor = rt0\<lparr>protoGet :=
     (\<lambda>v k. case v of
        JObj kvs \<Rightarrow> if k = ''constructor'' then Inr (JOpaque ''Object'') else Inr JUndefined
      | JOpaque n \<Rightarrow> if n = ''Object'' \<and> k = ''name'' then Inr (JStr ''Object'')
                     else Inr JUndefined
      | _ \<Rightarrow> Inr JUndefined)\<rparr>"

definition env0 :: env where
  "env0 = \<lparr>runtime = rt0, axios = (\<lambda>r. Some (Inl ''connect ECONNREFUSED'')),
     triggerNode = (\<lambda>n c. Some (Inr c)), conditionNode = (\<lambda>n c. Some (Inr c)),
     aiActionNode = (\<lambda>n c. Some (Inr c)), store_update = (\<lambda>k. Some (Inr ())),
     store_save = (\<lambda>k. Some (Inr ()))\<rparr>"

definition mk_node :: "string \<Rightarrow> string \<Rightarrow> node" where
  "mk_node i t = \<lparr>node_id = i, node_type = t, node_data = JObj [], node_props = []\<rparr>"

definition mk_edge :: "string \<Rightarrow> string \<Rightarrow> edge" where
  "mk_edge a b = \<lparr>edge_id = a @ ''-'' @ b, source = a, target = b\<rparr>"

text \<open>The \<^verbatim>\<open>nodeId\<close> of each recorded result, in order.\<close>

definition result_ids :: "run_state \<Rightarrow> jsval option list" where
  "result_ids s = map (\<lambda>v. own_prop v ''nodeId'') (results s)"

text \<open>
  An HTTP client that answers every request with status 200 and, as the body, the
  URL and the method it was asked for.
\<close>

definition env_echo :: env where
  "env_echo = env0\<lparr>axios :=
     (\<lambda>r. Some (Inr \<lparr>res_status = JNum (Fin 200),
                     res_data = JObj [(''url'', req_url r), (''method'', req_method r)],
                     res_headers = JObj []\<rparr>))\<rparr>"

text \<open>An HTTP client whose requests never settle.\<close>

definition env_pending :: env where
  "env_pending = env0\<lparr>axios := (\<lambda>r. None)\<rparr>"

text \<open>A store that rejects every update; a store that rejects every save but the first.\<close>

definition env_no_update :: env where
  "env_no_update = env0\<lparr>store_update := (\<lambda>k. Some (Inl ''store down''))\<rparr>"

definition env_no_save :: env where
  "env_no_save = env0\<lparr>store_save :=
     (\<lambda>k. if k = 0 then Some (Inr ()) else Some (Inl ''store down''))\<rparr>"

text \<open>
  An API node as the interface \<^verbatim>\<open>Node\<close> has it: the request is described in its
  \<^verbatim>\<open>data\<close>.
\<close>

definition api_node :: node where
  "api_node = (mk_node ''a'' ''apiCall'')\<lparr>node_data :=
     JObj [(''url'', JStr ''http://example.test/''), (''method'', JStr ''POST''),
           (''headers'', JObj [(''accept'', JStr ''text/plain'')]), (''body'', JStr ''ping'')]\<rparr>"

text \<open>A condition handler that merges the outcome \<open>b\<close> into the context.\<close>

definition env_cond :: "bool \<Rightarrow> env" where
  "env_cond b = env0\<lparr>conditionNode :=
     (\<lambda>n c. Some (Inr (spread_with rt0 c ''conditionResult'' (JBool b))))\<rparr>"

text \<open>A trigger, a condition behind it, and two edges out of the condition.\<close>

definition branch_nodes :: "node list" where
  "branch_nodes = [mk_node ''t'' ''trigger'', mk_node ''c'' ''condition'',
     mk_node ''a'' ''aiAction'', mk_node ''b'' ''aiAction'']"

definition branch_edges :: "edge list" where
  "branch_edges = [mk_edge ''t'' ''c'', mk_edge ''c'' ''a'', mk_edge ''c'' ''b'']"

text \<open>A diamond: \<open>c\<close> is reached along two paths.\<close>

definition diamond_nodes :: "node list" where
  "diamond_nodes = [mk_node ''t'' ''trigger'', mk_node ''a'' ''apiCall'',
     mk_node ''b'' ''aiAction'', mk_node ''c'' ''sendEmail'']"

definition diamond_edges :: "edge list" where
  "diamond_edges = [mk_edge ''t'' ''a'', mk_edge ''t'' ''b'', mk_edge ''a'' ''c'',
     mk_edge ''b'' ''c'']"

definition diamond_rank :: "string \<Rightarrow> nat" where
  "diamond_rank i = (if i = ''t'' then 2 else if i = ''c'' then 0 else 1)"

text \<open>One trigger with an edge to itself.\<close>

definition loop_nodes :: "node list" where
  "loop_nodes = [mk_node ''t'' ''trigger'']"

definition loop_edges :: "edge list" where
  "loop_edges = [mk_edge ''t'' ''t'']"

text \<open>A trigger and an API node behind it.\<close>

definition call_nodes :: "node list" where
  "call_nodes = [mk_node ''t'' ''trigger'', api_node]"

definition call_edges :: "edge list" where
  "call_edges = [mk_edge ''t'' ''a'']"

text \<open>
  Three triggers behind a node of another type: the first trigger has edges to that
  node and to the third trigger, and no edge leads to the second.
\<close>

definition triggers_nodes :: "node list" where
  "triggers_nodes = [mk_node ''a'' ''aiAction'', mk_node ''t1'' ''webhookTrigger'',
     mk_node ''t2'' ''trigger'', mk_node ''t3'' ''scheduleTrigger'']"

definition triggers_edges :: "edge list" where
  "triggers_edges = [mk_edge ''t1'' ''a'', mk_edge ''t1'' ''t3'']"

text \<open>Two triggers, the first of them without data.\<close>

definition bare_nodes :: "node list" where
  "bare_nodes = [(mk_node ''t1'' ''trigger'')\<lparr>node_data := JNull\<rparr>, mk_node ''t2'' ''trigger'']"

text \<open>Two triggers behind a node that has the id of the first.\<close>

definition twin_nodes :: "node list" where
  "twin_nodes = [mk_node ''1'' ''aiAction'', mk_node ''1'' ''trigger'', mk_node ''2'' ''trigger'']"

lemmas run_defs = executeAgentWorkflow_def execute_def run_from_def execute_failed_def visit_def
  dispatch_def apiCallNode_def api_request_def node_label_def member_def get_prop_def nullish_def
  ToString_def ToPrimitive_def js_or_def log_exec_def addResult_def findByIdAndUpdate_def
  console_write_def save_def assign_def new_execution_def then_act_def catch_act_def
  return_act_def throw_act_def await_def eval_act_def NodeResult_def is_trigger_def
  spread_with_def object_prototype_keys_def node_value_def result_ids_def Let_def
  eval_nat_numeral

lemmas ex_defs = env0_def rt0_def mk_node_def mk_edge_def

section \<open>The walker\<close>

subsection \<open>Steps of a run\<close>

lemma then_act_cases:
  assumes "then_act m f s = Some (out, s')"
  obtains (threw) err where "m s = Some (Inl err, s')" "out = Inl err"
  | (went_on) x s1 where "m s = Some (Inr x, s1)" "f x s1 = Some (out, s')"
  using assms by (auto simp: then_act_def split: option.splits sum.splits prod.splits)

lemma catch_act_cases:
  assumes "catch_act m h s = Some (out, s')"
  obtains (caught) err s1 where "m s = Some (Inl err, s1)" "h err s1 = Some (out, s')"
  | (passed) x where "m s = Some (Inr x, s')" "out = Inr x"
  using assms by (auto simp: catch_act_def split: option.splits sum.splits prod.splits)

lemma then_act_Inr: "m s = Some (Inr x, s1) \<Longrightarrow> then_act m f s = f x s1"
  by (simp add: then_act_def)

lemma then_act_Inl: "m s = Some (Inl err, s1) \<Longrightarrow> then_act m f s = Some (Inl err, s1)"
  by (simp add: then_act_def)

lemma catch_act_Inr: "m s = Some (Inr x, s1) \<Longrightarrow> catch_act m h s = Some (Inr x, s1)"
  by (simp add: catch_act_def)

lemma catch_act_Inl: "m s = Some (Inl err, s1) \<Longrightarrow> catch_act m h s = h err s1"
  by (simp add: catch_act_def)

subsection \<open>What a run changes in the state\<close>

lemma step_closedD:
  assumes "step_closed R"
  shows "R s s" and "R a b \<Longrightarrow> R b c \<Longrightarrow> R a c"
    and "R s (s\<lparr>console := console s @ [l]\<rparr>)"
    and "R s (s\<lparr>update_calls := Suc (update_calls s)\<rparr>)"
    and "R s (s\<lparr>logs := logs s @ [e]\<rparr>)"
  using assms unfolding step_closed_def by blast+

lemma preserves_simple:
  assumes "step_closed R"
  shows "preserves R (return_act x)" and "preserves R (throw_act err)"
    and "preserves R (await p)" and "preserves R (eval_act r)"
    and "preserves R (console_write l)"
  using step_closedD(1,3) [OF assms]
  by (auto simp: preserves_def return_act_def throw_act_def await_def eval_act_def
      console_write_def split: option.splits)

lemma preserves_then:
  assumes R: "step_closed R" and m: "preserves R m" and f: "\<And>x. preserves R (f x)"
  shows "preserves R (then_act m f)"
  unfolding preserves_def
proof (intro allI impI)
  fix s out s'
  assume "then_act m f s = Some (out, s')"
  then show "R s s'"
  proof (cases rule: then_act_cases)
    case (threw err)
    with m show ?thesis by (auto simp: preserves_def)
  next
    case (went_on x s1)
    with m f [of x] have "R s s1" and "R s1 s'" by (auto simp: preserves_def)
    then show ?thesis by (rule step_closedD(2) [OF R])
  qed
qed

lemma preserves_catch:
  assumes R: "step_closed R" and m: "preserves R m" and h: "\<And>err. preserves R (h err)"
  shows "preserves R (catch_act m h)"
  unfolding preserves_def
proof (intro allI impI)
  fix s out s'
  assume "catch_act m h s = Some (out, s')"
  then show "R s s'"
  proof (cases rule: catch_act_cases)
    case (caught err s1)
    with m h [of err] have "R s s1" and "R s1 s'" by (auto simp: preserves_def)
    then show ?thesis by (rule step_closedD(2) [OF R])
  next
    case (passed x)
    with m show ?thesis by (auto simp: preserves_def)
  qed
qed

lemma preserves_update:
  assumes R: "step_closed R" and u: "\<And>s. R s (upd s)"
  shows "preserves R (findByIdAndUpdate env upd)"
  unfolding preserves_def
proof (intro allI impI)
  fix s out s'
  assume a: "findByIdAndUpdate env upd s = Some (out, s')"
  let ?s1 = "s\<lparr>update_calls := Suc (update_calls s)\<rparr>"
  have 1: "R s ?s1" by (rule step_closedD(4) [OF R])
  have 2: "R s (upd ?s1)" using 1 u [of ?s1] by (rule step_closedD(2) [OF R])
  from a 1 2 show "R s s'"
    by (auto simp: findByIdAndUpdate_def split: option.splits sum.splits)
qed

lemma preserves_log_exec:
  assumes R: "step_closed R"
  shows "preserves R (log_exec env lv msg d)"
  unfolding log_exec_def
  by (intro preserves_catch preserves_then preserves_update preserves_simple R
      step_closedD(5) [OF R])

lemma preserves_addResult:
  assumes R: "step_closed R" and u: "\<And>s. R s (s\<lparr>results := results s @ [r]\<rparr>)"
  shows "preserves R (addResult env r)"
  unfolding addResult_def
  by (intro preserves_catch preserves_update preserves_simple R u)

lemma preserves_dispatch:
  assumes R: "step_closed R"
  shows "preserves R (dispatch env n c)"
  unfolding dispatch_def apiCallNode_def Let_def
  by (auto intro!: preserves_catch preserves_then preserves_simple preserves_log_exec R)

lemma preserves_for_edges:
  assumes R: "step_closed R" and ex: "\<And>e c. e \<in> set es \<Longrightarrow> preserves R (exec (target e) c)"
  shows "preserves R (for_edges exec es r)"
  using ex
proof (induction es)
  case Nil
  show ?case by (simp add: preserves_simple [OF R])
next
  case (Cons e es)
  show ?case
    by (simp, intro preserves_then R) (simp_all add: Cons)
qed

lemma preserves_visit:
  assumes R: "step_closed R"
    and u: "\<And>l r s. R s (s\<lparr>results := results s @ [NodeResult n l r]\<rparr>)"
    and ex: "\<And>e c. e \<in> set edges \<Longrightarrow> source e = nodeId \<Longrightarrow> preserves R (exec (target e) c)"
  shows "preserves R (visit env edges exec nodeId n c)"
  unfolding visit_def
  by (intro preserves_then preserves_simple preserves_log_exec preserves_dispatch
      preserves_addResult preserves_for_edges R u) (simp add: ex)

lemma find_id_Some:
  "find (\<lambda>n. node_id n = nid) nodes = Some n \<Longrightarrow> n \<in> set nodes \<and> node_id n = nid"
  by (auto simp: find_Some_iff)

lemma preserves_executeNode:
  assumes R: "step_closed R"
    and u: "\<And>n l r s. n \<in> set nodes \<Longrightarrow> node_id n \<in> ids
        \<Longrightarrow> R s (s\<lparr>results := results s @ [NodeResult n l r]\<rparr>)"
    and tg: "\<And>e. e \<in> set edges \<Longrightarrow> target e \<in> ids"
  shows "nid \<in> ids \<Longrightarrow> preserves R (executeNode env nodes edges fuel nid c)"
proof (induction fuel arbitrary: nid c)
  case 0
  show ?case by (simp add: preserves_def)
next
  case (Suc fuel)
  show ?case
  proof (cases "find (\<lambda>n. node_id n = nid) nodes")
    case None
    then show ?thesis by (simp add: preserves_simple [OF R])
  next
    case (Some n)
    from find_id_Some [OF Some] Suc.prems have n: "n \<in> set nodes" "node_id n \<in> ids" by simp_all
    have "preserves R (visit env edges (executeNode env nodes edges fuel) nid n c)"
      by (intro preserves_visit R u n Suc.IH tg)
    with Some show ?thesis by simp
  qed
qed

lemma preserves_run_from:
  assumes R: "step_closed R"
    and u: "\<And>n l r s. n \<in> set nodes \<Longrightarrow> node_id n \<in> ids
        \<Longrightarrow> R s (s\<lparr>results := results s @ [NodeResult n l r]\<rparr>)"
    and tg: "\<And>e. e \<in> set edges \<Longrightarrow> target e \<in> ids"
    and t: "node_id t \<in> ids"
  shows "preserves R (run_from env nodes edges fuel t)"
  unfolding run_from_def
  by (intro preserves_then preserves_simple preserves_log_exec R
      preserves_executeNode [where ids = ids] u tg t)

lemma preserves_execute:
  assumes R: "step_closed R"
    and u: "\<And>n l r s. n \<in> set nodes \<Longrightarrow> node_id n \<in> ids
        \<Longrightarrow> R s (s\<lparr>results := results s @ [NodeResult n l r]\<rparr>)"
    and tg: "\<And>e. e \<in> set edges \<Longrightarrow> target e \<in> ids"
    and t: "\<And>t. find is_trigger nodes = Some t \<Longrightarrow> node_id t \<in> ids"
  shows "preserves R (execute env nodes edges fuel)"
proof -
  have "preserves R (case find is_trigger nodes of
            None \<Rightarrow> throw_act ''No trigger node found''
          | Some t \<Rightarrow> run_from env nodes edges fuel t)"
    by (cases "find is_trigger nodes")
       (simp_all add: preserves_simple [OF R] preserves_run_from [OF R u tg t])
  then show ?thesis
    unfolding execute_def execute_failed_def
    by (intro preserves_catch preserves_then preserves_simple preserves_log_exec R)
qed

text \<open>
  The calls of \<^verbatim>\<open>execute\<close> leave the fields of the document and what was saved as
  they were.
\<close>

lemma document_kept_closed:
  "step_closed (\<lambda>s s'. status s' = status s \<and> saved s' = saved s \<and> error s' = error s
      \<and> save_calls s' = save_calls s)"
  by (simp add: step_closed_def)

lemma execute_keeps_document:
  assumes "execute env nodes edges fuel s = Some (out, s')"
  shows "status s' = status s \<and> saved s' = saved s \<and> error s' = error s
    \<and> save_calls s' = save_calls s"
proof -
  have "preserves (\<lambda>s s'. status s' = status s \<and> saved s' = saved s \<and> error s' = error s
      \<and> save_calls s' = save_calls s) (execute env nodes edges fuel)"
    by (rule preserves_execute [OF document_kept_closed, where ids = UNIV]) simp_all
  with assms show ?thesis unfolding preserves_def by blast
qed

subsection \<open>Termination without a cycle\<close>

lemma returns_simple:
  shows "returns (return_act x)" and "returns (throw_act err)" and "returns (eval_act r)"
    and "returns (console_write l)" and "returns (assign f)"
  by (simp_all add: returns_def return_act_def throw_act_def eval_act_def console_write_def
      assign_def)

lemma returns_await: "p \<noteq> None \<Longrightarrow> returns (await p)"
  by (auto simp: returns_def await_def)

lemma returns_then:
  assumes "returns m" and "\<And>x. returns (f x)"
  shows "returns (then_act m f)"
  using assms
  by (auto simp: returns_def then_act_def split: option.splits sum.splits prod.splits)

lemma returns_catch:
  assumes "returns m" and "\<And>err. returns (h err)"
  shows "returns (catch_act m h)"
  using assms
  by (auto simp: returns_def catch_act_def split: option.splits sum.splits prod.splits)

lemma returns_update: "settles env \<Longrightarrow> returns (findByIdAndUpdate env upd)"
  by (auto simp: returns_def findByIdAndUpdate_def settles_def
      split: option.splits sum.splits)

lemma returns_log_exec: "settles env \<Longrightarrow> returns (log_exec env lv msg d)"
  unfolding log_exec_def
  by (intro returns_catch returns_then returns_update returns_simple)

lemma returns_addResult: "settles env \<Longrightarrow> returns (addResult env r)"
  unfolding addResult_def
  by (intro returns_catch returns_update returns_simple)

lemma returns_dispatch:
  assumes "settles env"
  shows "returns (dispatch env n c)"
proof -
  from assms have "axios env r \<noteq> None" "triggerNode env n c \<noteq> None"
    "conditionNode env n c \<noteq> None" "aiActionNode env n c \<noteq> None" for r
    by (simp_all add: settles_def)
  then show ?thesis
    unfolding dispatch_def apiCallNode_def Let_def
    by (auto intro!: returns_catch returns_then returns_simple returns_await
        returns_log_exec assms)
qed

lemma returns_for_edges:
  assumes "\<And>e c. e \<in> set es \<Longrightarrow> returns (exec (target e) c)"
  shows "returns (for_edges exec es r)"
  using assms
proof (induction es)
  case Nil
  show ?case by (simp add: returns_simple)
next
  case (Cons e es)
  show ?case
    by (simp, intro returns_then) (simp_all add: Cons)
qed

lemma returns_visit:
  assumes "settles env"
    and "\<And>e c. e \<in> set edges \<Longrightarrow> source e = nodeId \<Longrightarrow> returns (exec (target e) c)"
  shows "returns (visit env edges exec nodeId n c)"
  unfolding visit_def
  by (intro returns_then returns_simple returns_log_exec returns_dispatch returns_addResult
      returns_for_edges assms(1)) (simp add: assms(2))

lemma returns_executeNode:
  assumes ac: "acyclic_by rank edges" and st: "settles env"
  shows "rank nid < fuel \<Longrightarrow> returns (executeNode env nodes edges fuel nid c)"
proof (induction fuel arbitrary: nid c)
  case 0
  then show ?case by simp
next
  case (Suc fuel)
  have next_ok: "returns (executeNode env nodes edges fuel (target e) c')"
    if "e \<in> set edges" and "source e = nid" for e c'
  proof -
    from ac that have "rank (target e) < rank nid"
      by (auto simp: acyclic_by_def list_all_iff)
    with Suc.prems have "rank (target e) < fuel" by simp
    then show ?thesis by (rule Suc.IH)
  qed
  show ?case
  proof (cases "find (\<lambda>n. node_id n = nid) nodes")
    case None
    then show ?thesis by (simp add: returns_simple)
  next
    case (Some n)
    have "returns (visit env edges (executeNode env nodes edges fuel) nid n c)"
      by (intro returns_visit st next_ok)
    with Some show ?thesis by simp
  qed
qed

lemma returns_execute:
  assumes ac: "acyclic_by rank edges" and st: "settles env"
    and fuel: "\<And>t. find is_trigger nodes = Some t \<Longrightarrow> rank (node_id t) < fuel"
  shows "returns (execute env nodes edges fuel)"
proof -
  have "returns (case find is_trigger nodes of
            None \<Rightarrow> throw_act ''No trigger node found''
          | Some t \<Rightarrow> run_from env nodes edges fuel t)"
  proof (cases "find is_trigger nodes")
    case None
    then show ?thesis by (simp add: returns_simple)
  next
    case (Some t)
    have "returns (run_from env nodes edges fuel t)"
      unfolding run_from_def
      by (intro returns_then returns_simple returns_log_exec st
          returns_executeNode [OF ac st] fuel Some)
    with Some show ?thesis by simp
  qed
  then show ?thesis
    unfolding execute_def execute_failed_def
    by (intro returns_catch returns_then returns_simple returns_log_exec st)
qed

subsection \<open>More fuel changes nothing\<close>

lemma act_le_refl: "act_le m m"
  by (simp add: act_le_def)

lemma act_le_then:
  assumes "act_le m m'" and "\<And>x. act_le (f x) (f' x)"
  shows "act_le (then_act m f) (then_act m' f')"
  unfolding act_le_def
proof (intro allI impI)
  fix s p
  assume a: "then_act m f s = Some p"
  obtain out s' where p: "p = (out, s')" by (cases p)
  from a [unfolded p] show "then_act m' f' s = Some p"
  proof (cases rule: then_act_cases)
    case (threw err)
    with assms(1) have "m' s = Some (Inl err, s')" by (simp add: act_le_def)
    with threw p show ?thesis by (simp add: then_act_Inl)
  next
    case (went_on x s1)
    with assms have "m' s = Some (Inr x, s1)" and "f' x s1 = Some (out, s')"
      by (simp_all add: act_le_def)
    with p show ?thesis by (simp add: then_act_Inr)
  qed
qed

lemma act_le_catch:
  assumes "act_le m m'" and "\<And>err. act_le (h err) (h' err)"
  shows "act_le (catch_act m h) (catch_act m' h')"
  unfolding act_le_def
proof (intro allI impI)
  fix s p
  assume a: "catch_act m h s = Some p"
  obtain out s' where p: "p = (out, s')" by (cases p)
  from a [unfolded p] show "catch_act m' h' s = Some p"
  proof (cases rule: catch_act_cases)
    case (caught err s1)
    with assms have "m' s = Some (Inl err, s1)" and "h' err s1 = Some (out, s')"
      by (simp_all add: act_le_def)
    with p show ?thesis by (simp add: catch_act_Inl)
  next
    case (passed x)
    with assms(1) have "m' s = Some (Inr x, s')" by (simp add: act_le_def)
    with passed p show ?thesis by (simp add: catch_act_Inr)
  qed
qed

lemma act_le_for_edges:
  assumes "\<And>nid c. act_le (exec nid c) (exec' nid c)"
  shows "act_le (for_edges exec es r) (for_edges exec' es r)"
proof (induction es)
  case Nil
  show ?case by (simp add: act_le_refl)
next
  case (Cons e es)
  show ?case by (simp, intro act_le_then assms Cons)
qed

lemma act_le_visit:
  assumes "\<And>nid c. act_le (exec nid c) (exec' nid c)"
  shows "act_le (visit env edges exec nodeId n c) (visit env edges exec' nodeId n c)"
  unfolding visit_def
  by (intro act_le_then act_le_refl act_le_for_edges assms)

lemma executeNode_Suc_fuel:
  "act_le (executeNode env nodes edges fuel nid c) (executeNode env nodes edges (Suc fuel) nid c)"
proof (induction fuel arbitrary: nid c)
  case 0
  show ?case by (simp add: act_le_def)
next
  case (Suc fuel)
  show ?case
  proof (cases "find (\<lambda>n. node_id n = nid) nodes")
    case None
    then show ?thesis by (simp add: act_le_refl)
  next
    case (Some n)
    have "act_le (visit env edges (executeNode env nodes edges fuel) nid n c)
        (visit env edges (executeNode env nodes edges (Suc fuel)) nid n c)"
      by (rule act_le_visit) (rule Suc.IH)
    with Some show ?thesis by (simp del: executeNode.simps(2) add: executeNode.simps(2) [of _ _ _ "Suc fuel"] executeNode.simps(2) [of _ _ _ fuel])
  qed
qed

lemma act_le_trans: "act_le a b \<Longrightarrow> act_le b c \<Longrightarrow> act_le a c"
  by (simp add: act_le_def)

lemma executeNode_more_fuel:
  "fuel \<le> fuel' \<Longrightarrow>
    act_le (executeNode env nodes edges fuel nid c) (executeNode env nodes edges fuel' nid c)"
proof (induction fuel' arbitrary: nid c)
  case 0
  then show ?case by (simp add: act_le_refl)
next
  case (Suc k)
  show ?case
  proof (cases "fuel = Suc k")
    case True
    then show ?thesis by (simp only: act_le_refl)
  next
    case False
    with Suc.prems have "fuel \<le> k" by simp
    from Suc.IH [OF this] executeNode_Suc_fuel show ?thesis by (rule act_le_trans)
  qed
qed

lemma execute_more_fuel:
  assumes "fuel \<le> fuel'"
  shows "act_le (execute env nodes edges fuel) (execute env nodes edges fuel')"
proof -
  have "act_le (case find is_trigger nodes of
            None \<Rightarrow> throw_act ''No trigger node found''
          | Some t \<Rightarrow> run_from env nodes edges fuel t)
        (case find is_trigger nodes of
            None \<Rightarrow> throw_act ''No trigger node found''
          | Some t \<Rightarrow> run_from env nodes edges fuel' t)"
  proof (cases "find is_trigger nodes")
    case None
    then show ?thesis by (simp add: act_le_refl)
  next
    case (Some t)
    have "act_le (run_from env nodes edges fuel t) (run_from env nodes edges fuel' t)"
      unfolding run_from_def
      by (intro act_le_then act_le_refl executeNode_more_fuel assms)
    with Some show ?thesis by simp
  qed
  then show ?thesis
    unfolding execute_def
    by (intro act_le_catch act_le_then act_le_refl)
qed

subsection \<open>Runs in which nothing throws\<close>

lemma no_throw_simple:
  shows "no_throw (return_act x)" and "no_throw (console_write l)" and "no_throw (assign f)"
    and "no_throw (eval_act (Inr y))"
  by (simp_all add: no_throw_def return_act_def console_write_def assign_def eval_act_def)

lemma no_throw_await: "(\<And>err. p \<noteq> Some (Inl err)) \<Longrightarrow> no_throw (await p)"
  by (auto simp: no_throw_def await_def split: option.splits)

lemma no_throw_then:
  assumes "no_throw m" and "\<And>x. no_throw (f x)"
  shows "no_throw (then_act m f)"
  using assms
  by (auto simp: no_throw_def then_act_def split: option.splits sum.splits prod.splits)

lemma no_throw_catch:
  assumes "\<And>err. no_throw (h err)"
  shows "no_throw (catch_act m h)"
  using assms
  by (auto simp: no_throw_def catch_act_def split: option.splits sum.splits prod.splits)

lemma no_throw_catch_left:
  assumes "no_throw m"
  shows "no_throw (catch_act m h)"
  using assms
  by (auto simp: no_throw_def catch_act_def split: option.splits sum.splits prod.splits)

lemma no_throw_log_exec: "no_throw (log_exec env lv msg d)"
  unfolding log_exec_def by (intro no_throw_catch no_throw_simple)

lemma no_throw_addResult: "no_throw (addResult env r)"
  unfolding addResult_def by (intro no_throw_catch no_throw_simple)

lemma no_throw_dispatch:
  assumes "handlers_return env"
  shows "no_throw (dispatch env n c)"
proof -
  from assms have "triggerNode env n c \<noteq> Some (Inl err)"
    "conditionNode env n c \<noteq> Some (Inl err)" "aiActionNode env n c \<noteq> Some (Inl err)" for err
    by (simp_all add: handlers_return_def)
  then show ?thesis
    unfolding dispatch_def apiCallNode_def Let_def
    by (auto intro!: no_throw_catch no_throw_then no_throw_simple no_throw_await
        no_throw_log_exec)
qed

lemma get_prop_plain:
  "k \<notin> set object_prototype_keys
    \<Longrightarrow> get_prop rt (JObj kvs) k = Inr (case map_of kvs k of Some v \<Rightarrow> v | None \<Rightarrow> JUndefined)"
  by (simp add: get_prop_def split: option.split)

lemma label_not_inherited: "''label'' \<notin> set object_prototype_keys"
  by (simp add: object_prototype_keys_def)

lemma plain_label_reads:
  assumes "plain_label n"
  shows "\<exists>l. member (runtime env) (node_data n) ''label'' = Inr l"
    and "\<exists>lbl. node_label env n = Inr lbl"
proof -
  from assms obtain kvs where d: "node_data n = JObj kvs"
    and l: "case map_of kvs ''label'' of None \<Rightarrow> True | Some l \<Rightarrow> as_prim l \<noteq> None"
    by (auto simp: plain_label_def split: jsval.splits)
  have m: "member (runtime env) (node_data n) ''label''
      = Inr (case map_of kvs ''label'' of Some v \<Rightarrow> v | None \<Rightarrow> JUndefined)"
    by (simp add: member_def nullish_def d get_prop_plain [OF label_not_inherited])
  then show "\<exists>l. member (runtime env) (node_data n) ''label'' = Inr l" by blast
  have "as_prim (js_or (case map_of kvs ''label'' of Some v \<Rightarrow> v | None \<Rightarrow> JUndefined)
      (JStr (node_type n))) \<noteq> None"
    using l by (auto simp: js_or_def split: option.splits)
  then show "\<exists>lbl. node_label env n = Inr lbl"
    by (auto simp: node_label_def m ToString_def ToPrimitive_def)
qed

lemma no_throw_for_edges:
  assumes "\<And>nid c. no_throw (exec nid c)"
  shows "no_throw (for_edges exec es r)"
proof (induction es)
  case Nil
  show ?case by (simp add: no_throw_simple)
next
  case (Cons e es)
  show ?case by (simp, intro no_throw_then assms Cons)
qed

lemma no_throw_visit:
  assumes h: "handlers_return env" and p: "plain_label n"
    and ex: "\<And>nid c. no_throw (exec nid c)"
  shows "no_throw (visit env edges exec nodeId n c)"
proof -
  from plain_label_reads [OF p, of env] obtain l lbl where
    "member (runtime env) (node_data n) ''label'' = Inr l" "node_label env n = Inr lbl"
    by blast
  then show ?thesis
    unfolding visit_def
    by (simp only:)
       (intro no_throw_then no_throw_simple no_throw_log_exec no_throw_dispatch
          no_throw_addResult no_throw_for_edges h ex)
qed

lemma no_throw_executeNode:
  assumes h: "handlers_return env" and d: "plain_data nodes"
  shows "no_throw (executeNode env nodes edges fuel nid c)"
proof (induction fuel arbitrary: nid c)
  case 0
  show ?case by (simp add: no_throw_def)
next
  case (Suc fuel)
  show ?case
  proof (cases "find (\<lambda>n. node_id n = nid) nodes")
    case None
    then show ?thesis by (simp add: no_throw_simple)
  next
    case (Some n)
    from find_id_Some [OF Some] d have "plain_label n"
      by (simp add: plain_data_def list_all_iff)
    then have "no_throw (visit env edges (executeNode env nodes edges fuel) nid n c)"
      by (intro no_throw_visit h Suc.IH)
    with Some show ?thesis by simp
  qed
qed

lemma no_throw_execute:
  assumes h: "handlers_return env" and d: "plain_data nodes"
    and t: "find is_trigger nodes = Some t"
  shows "no_throw (execute env nodes edges fuel)"
proof -
  from t have "t \<in> set nodes" by (auto simp: find_Some_iff)
  with d have "plain_label t" by (simp add: plain_data_def list_all_iff)
  from plain_label_reads(2) [OF this, of env] obtain lbl where
    lbl: "node_label env t = Inr lbl" by blast
  have "no_throw (run_from env nodes edges fuel t)"
    unfolding run_from_def lbl
    by (intro no_throw_then no_throw_simple no_throw_log_exec no_throw_executeNode h d)
  then show ?thesis
    unfolding execute_def
    by (intro no_throw_catch_left no_throw_then no_throw_log_exec) (simp add: t)
qed

subsection \<open>Claims about the walker\<close>

text \<open>
  Claim C9. An edge whose target is the id of no node of the graph is tolerated:
  \<^verbatim>\<open>executeNode\<close> on that target returns the context it was given and leaves the
  state as it was (no result, no log entry, no error), and the loop over the edges
  goes on with the next edge.
\<close>

theorem dangling_edge_tolerated:
  assumes "target e \<notin> node_id ` set nodes"
  shows "executeNode env nodes edges (Suc fuel) (target e) context s = Some (Inr context, s)
    \<and> for_edges (executeNode env nodes edges (Suc fuel)) (e # es) result s
        = for_edges (executeNode env nodes edges (Suc fuel)) es result s"
proof -
  from assms have "\<forall>n \<in> set nodes. node_id n \<noteq> target e" by force
  then have "find (\<lambda>n. node_id n = target e) nodes = None"
    by (simp add: find_None_iff)
  then have "executeNode env nodes edges (Suc fuel) (target e) c t = Some (Inr c, t)" for c t
    by (simp add: return_act_def)
  then show ?thesis by (simp add: then_act_def del: executeNode.simps)
qed

theorem dangling_edge_tolerated_witness:
  "''ghost'' \<notin> node_id ` set [mk_node ''t'' ''trigger'']
   \<and> executeNode env0 [mk_node ''t'' ''trigger''] [mk_edge ''t'' ''ghost''] (Suc 0) ''ghost''
        (JObj []) (new_execution ''a'' ''u'') = Some (Inr (JObj []), new_execution ''a'' ''u'')
   \<and> for_edges (executeNode env0 [mk_node ''t'' ''trigger''] [mk_edge ''t'' ''ghost''] (Suc 0))
        [mk_edge ''t'' ''ghost''] JNull (new_execution ''a'' ''u'')
      = Some (Inr (), new_execution ''a'' ''u'')"
  using dangling_edge_tolerated [of "mk_edge ''t'' ''ghost''" "[mk_node ''t'' ''trigger'']"
      env0 "[mk_edge ''t'' ''ghost'']" 0 "JObj []" "new_execution ''a'' ''u''" "[]" JNull]
  by (simp add: mk_node_def mk_edge_def return_act_def del: executeNode.simps)

subsection \<open>The end of a run\<close>

lemma new_execution_fields [simp]:
  "status (new_execution a u) = Running" "error (new_execution a u) = None"
  "logs (new_execution a u) = []" "results (new_execution a u) = []"
  "saved (new_execution a u) = []" "console (new_execution a u) = []"
  "update_calls (new_execution a u) = 0" "save_calls (new_execution a u) = 0"
  by (simp_all add: new_execution_def)

lemma log_exec_result:
  assumes "store_update env (update_calls s) \<noteq> None"
  shows "\<exists>s'. log_exec env lv msg d s = Some (Inr (), s')
    \<and> status s' = status s \<and> error s' = error s \<and> saved s' = saved s
    \<and> save_calls s' = save_calls s \<and> results s' = results s
    \<and> update_calls s' = Suc (update_calls s)
    \<and> (store_update env (update_calls s) = Some (Inr ())
        \<longrightarrow> logs s' = logs s @ [\<lparr>log_level = lv, log_message = msg, log_data = d\<rparr>])"
proof -
  from assms obtain r where r: "store_update env (update_calls s) = Some r" by auto
  show ?thesis
    by (cases r)
       (simp_all add: r log_exec_def findByIdAndUpdate_def console_write_def then_act_def
          catch_act_def)
qed

lemma execute_no_trigger:
  assumes nt: "find is_trigger nodes = None" and st: "\<And>k. store_update env k \<noteq> None"
  shows "\<exists>s'. execute env nodes edges fuel s = Some (Inl ''No trigger node found'', s')
    \<and> status s' = status s \<and> error s' = error s \<and> saved s' = saved s
    \<and> save_calls s' = save_calls s \<and> results s' = results s
    \<and> (updates_accepted env
        \<longrightarrow> logs s' = logs s
            @ [\<lparr>log_level = Info, log_message = ''Starting agent execution'',
                 log_data = JUndefined\<rparr>,
               \<lparr>log_level = Error, log_message = ''Agent execution failed'',
                 log_data = JObj [(''error'', JStr ''No trigger node found'')]\<rparr>])"
proof -
  from log_exec_result [OF st, where s = s and lv = Info
      and msg = "''Starting agent execution''" and d = JUndefined]
  obtain s1 where s1: "log_exec env Info ''Starting agent execution'' JUndefined s
      = Some (Inr (), s1)"
    and k1: "status s1 = status s" "error s1 = error s" "saved s1 = saved s"
      "save_calls s1 = save_calls s" "results s1 = results s"
    and l1: "updates_accepted env
      \<Longrightarrow> logs s1 = logs s @ [\<lparr>log_level = Info, log_message = ''Starting agent execution'',
             log_data = JUndefined\<rparr>]"
    by (auto simp: updates_accepted_def)
  from log_exec_result [OF st, where s = s1 and lv = Error
      and msg = "''Agent execution failed''"
      and d = "JObj [(''error'', JStr ''No trigger node found'')]"]
  obtain s2 where s2: "log_exec env Error ''Agent execution failed''
        (JObj [(''error'', JStr ''No trigger node found'')]) s1 = Some (Inr (), s2)"
    and k2: "status s2 = status s1" "error s2 = error s1" "saved s2 = saved s1"
      "save_calls s2 = save_calls s1" "results s2 = results s1"
    and l2: "updates_accepted env
      \<Longrightarrow> logs s2 = logs s1 @ [\<lparr>log_level = Error, log_message = ''Agent execution failed'',
             log_data = JObj [(''error'', JStr ''No trigger node found'')]\<rparr>]"
    by (auto simp: updates_accepted_def)
  have "execute env nodes edges fuel s = Some (Inl ''No trigger node found'', s2)"
    by (simp add: execute_def execute_failed_def nt catch_act_def then_act_def s1 s2
        throw_act_def)
  with k1 k2 l1 l2 show ?thesis by auto
qed

text \<open>
  Claim C5. For a graph without a node of a trigger type, \<^verbatim>\<open>executeAgentWorkflow\<close>
  throws \<^verbatim>\<open>No trigger node found\<close> to its caller, whatever the fuel; before that
  the document is saved with the status \<open>Failed\<close> and the message of the error, and
  the failure is logged. The store is taken to work: each of its calls settles and
  each \<^verbatim>\<open>save\<close> is fulfilled; the two log entries are there when the updates are
  fulfilled too.
\<close>

theorem no_trigger_fails:
  assumes "\<forall>n \<in> set nodes. \<not> is_trigger n"
    and "\<forall>k. store_update env k \<noteq> None" and "saves_accepted env"
  shows "\<exists>s. executeAgentWorkflow env fuel a u nodes edges
        = Some (Inl ''No trigger node found'', s)
      \<and> status s = Failed \<and> error s = Some ''No trigger node found''
      \<and> saved s = [Running, Failed] \<and> results s = []
      \<and> (updates_accepted env
          \<longrightarrow> logs s = [\<lparr>log_level = Info, log_message = ''Starting agent execution'',
                           log_data = JUndefined\<rparr>,
                         \<lparr>log_level = Error, log_message = ''Agent execution failed'',
                           log_data = JObj [(''error'', JStr ''No trigger node found'')]\<rparr>])"
proof -
  from assms(1) have nt: "find is_trigger nodes = None"
    by (auto simp: find_None_iff)
  let ?s0 = "(new_execution a u)\<lparr>save_calls := Suc 0, saved := [Running]\<rparr>"
  from assms(3) have sv: "store_save env k = Some (Inr ())" for k
    by (simp add: saves_accepted_def)
  have s0: "save env (new_execution a u) = Some (Inr (), ?s0)"
    by (simp add: save_def sv)
  from execute_no_trigger [OF nt, of env edges fuel ?s0] assms(2)
  obtain s1 where ex: "execute env nodes edges fuel ?s0
      = Some (Inl ''No trigger node found'', s1)"
    and k: "status s1 = status ?s0" "error s1 = error ?s0" "saved s1 = saved ?s0"
      "save_calls s1 = save_calls ?s0" "results s1 = results ?s0"
    and l: "updates_accepted env \<longrightarrow> logs s1 = logs ?s0
            @ [\<lparr>log_level = Info, log_message = ''Starting agent execution'',
                 log_data = JUndefined\<rparr>,
               \<lparr>log_level = Error, log_message = ''Agent execution failed'',
                 log_data = JObj [(''error'', JStr ''No trigger node found'')]\<rparr>]"
    by blast
  let ?s2 = "s1\<lparr>status := Failed, error := Some ''No trigger node found'',
      save_calls := Suc (save_calls s1), saved := saved s1 @ [Failed]\<rparr>"
  have "executeAgentWorkflow env fuel a u nodes edges
      = Some (Inl ''No trigger node found'', ?s2)"
    by (simp add: executeAgentWorkflow_def then_act_def catch_act_def s0 ex assign_def
        save_def sv throw_act_def)
  moreover have "logs ?s0 = []" "results ?s0 = []" "saved ?s0 = [Running]"
    by simp_all
  ultimately show ?thesis using k l by simp
qed

theorem no_trigger_fails_witness:
  "(\<exists>s. executeAgentWorkflow env0 0 ''agent'' ''user'' [mk_node ''a'' ''apiCall''] []
        = Some (Inl ''No trigger node found'', s)
      \<and> status s = Failed \<and> error s = Some ''No trigger node found''
      \<and> saved s = [Running, Failed] \<and> results s = []
      \<and> length (logs s) = 2)"
proof -
  have a: "\<forall>n \<in> set [mk_node ''a'' ''apiCall'']. \<not> is_trigger n"
    by (simp add: mk_node_def is_trigger_def)
  have b: "\<forall>k. store_update env0 k \<noteq> None" by (simp add: env0_def)
  have c: "saves_accepted env0" by (simp add: saves_accepted_def env0_def)
  have d: "updates_accepted env0" by (simp add: updates_accepted_def env0_def)
  from no_trigger_fails [OF a b c, of 0 "''agent''" "''user''" "[]"] d
  show ?thesis by auto
qed

lemma executeAgentWorkflow_end:
  assumes sv: "saves_accepted env"
    and ex: "execute env nodes edges fuel
        ((new_execution a u)\<lparr>save_calls := Suc 0, saved := [Running]\<rparr>) = Some (out, s)"
  shows "executeAgentWorkflow env fuel a u nodes edges
        = Some (map_sum (\<lambda>e. e) (\<lambda>r. ()) out, finished out s)"
    and "status (finished out s) = Completed \<or> status (finished out s) = Failed"
    and "saved (finished out s) = [Running, status (finished out s)]"
    and "(status (finished out s) = Completed) = (\<not> isl out)"
proof -
  let ?s0 = "(new_execution a u)\<lparr>save_calls := Suc 0, saved := [Running]\<rparr>"
  from sv have sv: "store_save env k = Some (Inr ())" for k
    by (simp add: saves_accepted_def)
  have s0: "save env (new_execution a u) = Some (Inr (), ?s0)"
    by (simp add: save_def sv)
  show "executeAgentWorkflow env fuel a u nodes edges
        = Some (map_sum (\<lambda>e. e) (\<lambda>r. ()) out, finished out s)"
    by (cases out)
       (simp_all add: executeAgentWorkflow_def then_act_def catch_act_def s0 ex assign_def
          save_def sv throw_act_def finished_def)
  from execute_keeps_document [OF ex] have "saved s = [Running]"
    by simp
  then show "status (finished out s) = Completed \<or> status (finished out s) = Failed"
    and "saved (finished out s) = [Running, status (finished out s)]"
    and "(status (finished out s) = Completed) = (\<not> isl out)"
    by (cases out; simp add: finished_def)+
qed

lemma execute_returns:
  assumes ac: "acyclic_by rank edges" and st: "settles env"
  shows "\<exists>N p. \<forall>fuel \<ge> N. execute env nodes edges fuel s = Some p"
proof -
  define N where "N = (case find is_trigger nodes of None \<Rightarrow> 0 | Some t \<Rightarrow> Suc (rank (node_id t)))"
  have "returns (execute env nodes edges N)"
    by (rule returns_execute [OF ac st]) (simp add: N_def)
  then have "execute env nodes edges N s \<noteq> None"
    unfolding returns_def by blast
  then obtain p where p: "execute env nodes edges N s = Some p"
    by blast
  have "execute env nodes edges fuel s = Some p" if "N \<le> fuel" for fuel
    using execute_more_fuel [OF that, of env nodes edges] p unfolding act_le_def by blast
  then show ?thesis by blast
qed

text \<open>
  Claim C6, as the code has it. When the edges of the graph have no cycle, every
  promise that the run awaits settles and the store fulfils each \<^verbatim>\<open>save\<close>, a run
  returns from some depth on, with one and the same result; the status it ends in is
  \<open>Completed\<close> (the run returned) or \<open>Failed\<close> (it threw), and the statuses written
  to the store are \<open>Running\<close> and then that one, nothing after it.
\<close>

theorem acyclic_run_ends:
  assumes "acyclic_by rank edges" and "settles env" and "saves_accepted env"
  shows "\<exists>N out s. \<forall>fuel \<ge> N.
      executeAgentWorkflow env fuel a u nodes edges = Some (out, s)
      \<and> (status s = Completed \<or> status s = Failed)
      \<and> saved s = [Running, status s]
      \<and> (status s = Completed) = (\<not> isl out)"
proof -
  let ?s0 = "(new_execution a u)\<lparr>save_calls := Suc 0, saved := [Running]\<rparr>"
  from execute_returns [OF assms(1,2), of nodes ?s0]
  obtain N p where ex: "\<And>fuel. N \<le> fuel \<Longrightarrow> execute env nodes edges fuel ?s0 = Some p"
    by blast
  obtain o1 s1 where p: "p = (o1, s1)" by (cases p)
  note fin = executeAgentWorkflow_end [OF assms(3) ex [unfolded p]]
  have "isl (map_sum (\<lambda>e. e) (\<lambda>r. ()) o1) = isl o1" by (cases o1) simp_all
  with fin(1) fin(2-4) [of N] have "\<forall>fuel \<ge> N.
      executeAgentWorkflow env fuel a u nodes edges
        = Some (map_sum (\<lambda>e. e) (\<lambda>r. ()) o1, finished o1 s1)
      \<and> (status (finished o1 s1) = Completed \<or> status (finished o1 s1) = Failed)
      \<and> saved (finished o1 s1) = [Running, status (finished o1 s1)]
      \<and> (status (finished o1 s1) = Completed) = (\<not> isl (map_sum (\<lambda>e. e) (\<lambda>r. ()) o1))"
    by simp
  then show ?thesis by blast
qed

lemma env0_fields [simp]:
  "runtime env0 = rt0" "axios env0 = (\<lambda>r. Some (Inl ''connect ECONNREFUSED''))"
  "triggerNode env0 = (\<lambda>n c. Some (Inr c))" "conditionNode env0 = (\<lambda>n c. Some (Inr c))"
  "aiActionNode env0 = (\<lambda>n c. Some (Inr c))" "store_update env0 = (\<lambda>k. Some (Inr ()))"
  "store_save env0 = (\<lambda>k. Some (Inr ()))"
  by (simp_all add: env0_def)

lemma diamond_acyclic: "acyclic_by diamond_rank diamond_edges"
  by (simp add: acyclic_by_def diamond_rank_def diamond_edges_def mk_edge_def)

lemma settles_env0: "settles env0"
  by (simp add: settles_def)

lemma saves_accepted_env0: "saves_accepted env0"
  by (simp add: saves_accepted_def)

lemma updates_accepted_env0: "updates_accepted env0"
  by (simp add: updates_accepted_def)

lemma handlers_return_env0: "handlers_return env0"
  by (simp add: handlers_return_def)

theorem acyclic_run_ends_witness:
  "acyclic_by diamond_rank diamond_edges \<and> settles env0 \<and> saves_accepted env0
   \<and> (\<exists>N out s. \<forall>fuel \<ge> N.
        executeAgentWorkflow env0 fuel ''a'' ''u'' diamond_nodes diamond_edges = Some (out, s)
        \<and> (status s = Completed \<or> status s = Failed)
        \<and> saved s = [Running, status s]
        \<and> (status s = Completed) = (\<not> isl out))
   \<and> (case executeAgentWorkflow env0 3 ''a'' ''u'' diamond_nodes diamond_edges of
         Some (Inr v, s) \<Rightarrow>
           status s = Completed \<and> saved s = [Running, Completed]
           \<and> result_ids s = [Some (JStr ''t''), Some (JStr ''a''), Some (JStr ''c''),
                Some (JStr ''b''), Some (JStr ''c'')]
       | _ \<Rightarrow> False)"
proof -
  have run: "(case executeAgentWorkflow env0 3 ''a'' ''u'' diamond_nodes diamond_edges of
         Some (Inr v, s) \<Rightarrow>
           status s = Completed \<and> saved s = [Running, Completed]
           \<and> result_ids s = [Some (JStr ''t''), Some (JStr ''a''), Some (JStr ''c''),
                Some (JStr ''b''), Some (JStr ''c'')]
       | _ \<Rightarrow> False)"
    by (simp add: run_defs ex_defs diamond_nodes_def diamond_edges_def)
  from acyclic_run_ends [OF diamond_acyclic settles_env0 saves_accepted_env0,
      of "''a''" "''u''" diamond_nodes]
    diamond_acyclic settles_env0 saves_accepted_env0 run
  show ?thesis by (intro conjI)
qed

lemma loop_executeNode: "executeNode env0 loop_nodes loop_edges fuel ''t'' c s = None"
proof (induction fuel arbitrary: c s)
  case 0
  show ?case by simp
next
  case (Suc fuel)
  have n: "find (\<lambda>n. node_id n = ''t'') loop_nodes = Some (mk_node ''t'' ''trigger'')"
    by (simp add: loop_nodes_def mk_node_def)
  have e: "filter (\<lambda>e. source e = ''t'') loop_edges = [mk_edge ''t'' ''t'']"
    by (simp add: loop_edges_def mk_edge_def)
  have t: "target (mk_edge ''t'' ''t'') = ''t''" by (simp add: mk_edge_def)
  have d: "node_data (mk_node ''t'' ''trigger'') = JObj []"
    "node_type (mk_node ''t'' ''trigger'') = ''trigger''"
    by (simp_all add: mk_node_def)
  show ?case
    by (simp add: n visit_def e t d Suc.IH node_label_def member_def nullish_def get_prop_def
        object_prototype_keys_def js_or_def ToString_def ToPrimitive_def dispatch_def
        log_exec_def addResult_def findByIdAndUpdate_def console_write_def then_act_def
        catch_act_def await_def eval_act_def del: mk_edge_def)
qed

lemma pending_executeNode_a:
  "executeNode env_pending call_nodes call_edges fuel ''a'' c s = None"
proof (cases fuel)
  case 0
  then show ?thesis by simp
next
  case (Suc k)
  have n: "find (\<lambda>n. node_id n = ''a'') call_nodes = Some api_node"
    by (simp add: call_nodes_def api_node_def mk_node_def)
  have "visit env_pending call_edges exec ''a'' api_node c s = None" for exec
    by (simp add: visit_def env_pending_def api_node_def mk_node_def node_label_def member_def
        nullish_def get_prop_def object_prototype_keys_def js_or_def ToString_def
        ToPrimitive_def dispatch_def apiCallNode_def api_request_def node_value_def
        log_exec_def findByIdAndUpdate_def console_write_def then_act_def
        catch_act_def await_def eval_act_def)
  with Suc n show ?thesis by simp
qed

lemma pending_executeNode_t:
  "executeNode env_pending call_nodes call_edges fuel ''t'' c s = None"
proof (cases fuel)
  case 0
  then show ?thesis by simp
next
  case (Suc k)
  have n: "find (\<lambda>n. node_id n = ''t'') call_nodes = Some (mk_node ''t'' ''trigger'')"
    by (simp add: call_nodes_def mk_node_def)
  have e: "filter (\<lambda>e. source e = ''t'') call_edges = [mk_edge ''t'' ''a'']"
    by (simp add: call_edges_def mk_edge_def)
  have t: "target (mk_edge ''t'' ''a'') = ''a''" by (simp add: mk_edge_def)
  have d: "node_data (mk_node ''t'' ''trigger'') = JObj []"
    "node_type (mk_node ''t'' ''trigger'') = ''trigger''"
    by (simp_all add: mk_node_def)
  have f: "runtime env_pending = rt0" "triggerNode env_pending = (\<lambda>n c. Some (Inr c))"
    "store_update env_pending = (\<lambda>k. Some (Inr ()))"
    by (simp_all add: env_pending_def)
  from Suc n show ?thesis
    by (simp add: visit_def e t d f pending_executeNode_a node_label_def member_def nullish_def
        get_prop_def object_prototype_keys_def js_or_def ToString_def ToPrimitive_def
        dispatch_def log_exec_def addResult_def findByIdAndUpdate_def console_write_def
        then_act_def catch_act_def await_def eval_act_def del: mk_edge_def)
qed

text \<open>
  Claim C6 as stated, for every graph with exactly one trigger, fails in three ways.
  On a trigger with an edge to itself no depth is enough: the run does not return and
  the status stays \<open>Running\<close>. On a trigger with an API node behind it, a graph
  without a cycle, the run does not return when the request never settles
  (\<^verbatim>\<open>apiCallNode\<close> sets no timeout), where it returns at depth 2 when the request is
  refused. And when the store rejects every \<^verbatim>\<open>save\<close> after the first, the run of a
  single trigger, in which \<^verbatim>\<open>execute\<close> returned, throws the error of the store:
  the document is marked \<open>Failed\<close> and the status in the store is left \<open>Running\<close>.
\<close>

theorem run_left_running:
  "\<not> (\<exists>fuel. executeAgentWorkflow env0 fuel ''a'' ''u'' loop_nodes loop_edges \<noteq> None)
   \<and> acyclic_by (\<lambda>i. if i = ''t'' then 1 else 0) call_edges
   \<and> \<not> (\<exists>fuel. executeAgentWorkflow env_pending fuel ''a'' ''u'' call_nodes call_edges \<noteq> None)
   \<and> executeAgentWorkflow env0 2 ''a'' ''u'' call_nodes call_edges \<noteq> None
   \<and> (case executeAgentWorkflow env_no_save 1 ''a'' ''u'' [mk_node ''t'' ''trigger''] [] of
         Some (Inl err, s) \<Rightarrow>
           err = ''store down'' \<and> saved s = [Running] \<and> status s = Failed
           \<and> log_message (last (logs s)) = ''Agent execution completed successfully''
       | _ \<Rightarrow> False)"
proof -
  have t: "find is_trigger loop_nodes = Some (mk_node ''t'' ''trigger'')"
    by (simp add: loop_nodes_def mk_node_def is_trigger_def)
  have t': "find is_trigger call_nodes = Some (mk_node ''t'' ''trigger'')"
    by (simp add: call_nodes_def mk_node_def is_trigger_def)
  have d: "node_data (mk_node ''t'' ''trigger'') = JObj []"
    "node_type (mk_node ''t'' ''trigger'') = ''trigger''"
    "node_id (mk_node ''t'' ''trigger'') = ''t''"
    by (simp_all add: mk_node_def)
  have f: "runtime env_pending = rt0" "store_update env_pending = (\<lambda>k. Some (Inr ()))"
    "store_save env_pending = (\<lambda>k. Some (Inr ()))"
    by (simp_all add: env_pending_def)
  have "executeAgentWorkflow env0 fuel ''a'' ''u'' loop_nodes loop_edges = None" for fuel
    by (simp add: executeAgentWorkflow_def execute_def run_from_def t d loop_executeNode
        node_label_def member_def nullish_def get_prop_def object_prototype_keys_def js_or_def
        ToString_def ToPrimitive_def log_exec_def findByIdAndUpdate_def console_write_def
        save_def then_act_def catch_act_def eval_act_def
        del: executeNode.simps)
  moreover have "executeAgentWorkflow env_pending fuel ''a'' ''u'' call_nodes call_edges = None"
    for fuel
    by (simp add: executeAgentWorkflow_def execute_def run_from_def t' d f
        pending_executeNode_t
        node_label_def member_def nullish_def get_prop_def object_prototype_keys_def js_or_def
        ToString_def ToPrimitive_def log_exec_def findByIdAndUpdate_def console_write_def
        save_def then_act_def catch_act_def eval_act_def
        del: executeNode.simps)
  moreover have "acyclic_by (\<lambda>i. if i = ''t'' then 1 else 0) call_edges"
    by (simp add: acyclic_by_def call_edges_def mk_edge_def)
  moreover have "executeAgentWorkflow env0 2 ''a'' ''u'' call_nodes call_edges \<noteq> None"
    by (simp add: run_defs ex_defs call_nodes_def call_edges_def api_node_def)
  moreover have "(case executeAgentWorkflow env_no_save 1 ''a'' ''u'' [mk_node ''t'' ''trigger''] [] of
         Some (Inl err, s) \<Rightarrow>
           err = ''store down'' \<and> saved s = [Running] \<and> status s = Failed
           \<and> log_message (last (logs s)) = ''Agent execution completed successfully''
       | _ \<Rightarrow> False)"
    by (simp add: run_defs ex_defs env_no_save_def)
  ultimately show ?thesis by simp
qed

subsection \<open>The node a run starts from\<close>

lemma results_kept_closed: "step_closed (\<lambda>s s'. results s' = results s)"
  by (simp add: step_closed_def)

lemma results_extend_closed:
  "step_closed (\<lambda>s s'. \<exists>rs. results s' = results s @ rs \<and> (\<forall>x \<in> set rs. P x))"
  unfolding step_closed_def
proof (intro conjI allI impI)
  fix a b c :: run_state
  assume "\<exists>rs. results b = results a @ rs \<and> (\<forall>x \<in> set rs. P x)"
    and "\<exists>rs. results c = results b @ rs \<and> (\<forall>x \<in> set rs. P x)"
  then obtain r1 r2 where 1: "results b = results a @ r1" "\<forall>x \<in> set r1. P x"
    and 2: "results c = results b @ r2" "\<forall>x \<in> set r2. P x"
    by blast
  from 1 2 have "results c = results a @ (r1 @ r2)" and "\<forall>x \<in> set (r1 @ r2). P x"
    by auto
  then show "\<exists>rs. results c = results a @ rs \<and> (\<forall>x \<in> set rs. P x)" by blast
qed simp_all

lemma execute_records_reached:
  assumes ex: "execute env nodes edges fuel s = Some (out, s')"
    and t: "find is_trigger nodes = Some t"
  shows "\<exists>rs. results s' = results s @ rs
    \<and> (\<forall>x \<in> set rs. own_prop x ''nodeId'' = Some (JStr (node_id t))
          \<or> (\<exists>e \<in> set edges. own_prop x ''nodeId'' = Some (JStr (target e))))"
proof -
  let ?P = "\<lambda>x. own_prop x ''nodeId'' = Some (JStr (node_id t))
          \<or> (\<exists>e \<in> set edges. own_prop x ''nodeId'' = Some (JStr (target e)))"
  have "preserves (\<lambda>s s'. \<exists>rs. results s' = results s @ rs \<and> (\<forall>x \<in> set rs. ?P x))
      (execute env nodes edges fuel)"
  proof (rule preserves_execute [OF results_extend_closed,
        where ids = "insert (node_id t) (target ` set edges)"])
    fix n l r s
    assume "n \<in> set nodes" and "node_id n \<in> insert (node_id t) (target ` set edges)"
    then have "?P (NodeResult n l r)" by (auto simp: NodeResult_def)
    then show "\<exists>rs. results (s\<lparr>results := results s @ [NodeResult n l r]\<rparr>) = results s @ rs
        \<and> (\<forall>x \<in> set rs. ?P x)"
      by simp
  qed (simp_all add: t)
  with ex show ?thesis unfolding preserves_def by blast
qed

lemma addResult_accepted:
  assumes "updates_accepted env"
  shows "addResult env x s
    = Some (Inr (), s\<lparr>update_calls := Suc (update_calls s), results := results s @ [x]\<rparr>)"
  using assms
  by (simp add: addResult_def findByIdAndUpdate_def catch_act_def updates_accepted_def)

lemma visit_records:
  assumes up: "updates_accepted env"
    and v: "visit env edges exec nodeId n c s = Some (Inr r, s')"
    and ex: "\<And>nid c. preserves (\<lambda>s s'. \<exists>rs. results s' = results s @ rs) (exec nid c)"
  shows "\<exists>l res rs. results s' = results s @ NodeResult n l res # rs"
proof -
  note kept = results_kept_closed
  from v [unfolded visit_def] obtain lbl s1 where
    1: "eval_act (node_label env n) s = Some (Inr lbl, s1)"
    and v1: "then_act (log_exec env Info (''Executing node: '' @ lbl) JUndefined) (\<lambda>u.
     then_act (dispatch env n c) (\<lambda>result.
     then_act (eval_act (member (runtime env) (node_data n) ''label'')) (\<lambda>l.
     then_act (addResult env (NodeResult n l result)) (\<lambda>u.
     then_act (for_edges exec (filter (\<lambda>e. source e = nodeId) edges) result) (\<lambda>u.
     return_act result))))) s1 = Some (Inr r, s')"
    by (cases rule: then_act_cases) simp_all
  from v1 obtain u2 s2 where
    2: "log_exec env Info (''Executing node: '' @ lbl) JUndefined s1 = Some (Inr u2, s2)"
    and v2: "then_act (dispatch env n c) (\<lambda>result.
     then_act (eval_act (member (runtime env) (node_data n) ''label'')) (\<lambda>l.
     then_act (addResult env (NodeResult n l result)) (\<lambda>u.
     then_act (for_edges exec (filter (\<lambda>e. source e = nodeId) edges) result) (\<lambda>u.
     return_act result)))) s2 = Some (Inr r, s')"
    by (cases rule: then_act_cases) simp_all
  from v2 obtain res s3 where
    3: "dispatch env n c s2 = Some (Inr res, s3)"
    and v3: "then_act (eval_act (member (runtime env) (node_data n) ''label'')) (\<lambda>l.
     then_act (addResult env (NodeResult n l res)) (\<lambda>u.
     then_act (for_edges exec (filter (\<lambda>e. source e = nodeId) edges) res) (\<lambda>u.
     return_act res))) s3 = Some (Inr r, s')"
    by (cases rule: then_act_cases) simp_all
  from v3 obtain l s4 where
    4: "eval_act (member (runtime env) (node_data n) ''label'') s3 = Some (Inr l, s4)"
    and v4: "then_act (addResult env (NodeResult n l res)) (\<lambda>u.
     then_act (for_edges exec (filter (\<lambda>e. source e = nodeId) edges) res) (\<lambda>u.
     return_act res)) s4 = Some (Inr r, s')"
    by (cases rule: then_act_cases) simp_all
  let ?s5 = "s4\<lparr>update_calls := Suc (update_calls s4),
      results := results s4 @ [NodeResult n l res]\<rparr>"
  from v4 have v5: "then_act (for_edges exec (filter (\<lambda>e. source e = nodeId) edges) res)
      (\<lambda>u. return_act res) ?s5 = Some (Inr r, s')"
    by (simp add: then_act_Inr [OF addResult_accepted [OF up]])
  then obtain u6 where 6: "for_edges exec (filter (\<lambda>e. source e = nodeId) edges) res ?s5
      = Some (Inr u6, s')"
    by (cases rule: then_act_cases) (simp_all add: return_act_def)
  have "s1 = s" "s4 = s3" using 1 4 by (simp_all add: eval_act_def)
  moreover have "results s2 = results s1"
    using preserves_log_exec [OF kept, of env] 2 unfolding preserves_def by blast
  moreover have "results s3 = results s2"
    using preserves_dispatch [OF kept, of env] 3 unfolding preserves_def by blast
  moreover have "\<exists>rs. results s' = results ?s5 @ rs"
    using preserves_for_edges [OF results_extend_closed [where P = "\<lambda>x. True", simplified],
        of _ exec] ex 6
    unfolding preserves_def by blast
  ultimately show ?thesis by auto
qed

text \<open>No call of \<^verbatim>\<open>executeNode\<close> drops a result that was recorded before it.\<close>

lemma results_never_dropped:
  assumes "executeNode env nodes edges fuel nid c s = Some (out, s')"
  shows "\<exists>rs. results s' = results s @ rs"
proof -
  have "preserves (\<lambda>s s'. \<exists>rs. results s' = results s @ rs)
      (executeNode env nodes edges fuel nid c)"
    using preserves_executeNode [OF results_extend_closed [where P = "\<lambda>x. True", simplified],
        where ids = UNIV]
    by simp
  with assms show ?thesis unfolding preserves_def by blast
qed

lemma find_first_trigger:
  assumes "\<forall>n \<in> set pre. \<not> is_trigger n \<and> node_id n \<noteq> node_id t" and "is_trigger t"
  shows "find is_trigger (pre @ t # post) = Some t"
    and "find (\<lambda>n. node_id n = node_id t) (pre @ t # post) = Some t"
  using assms by (induction pre) simp_all

lemma execute_first_result:
  assumes up: "updates_accepted env"
    and t: "find is_trigger nodes = Some t"
    and i: "find (\<lambda>n. node_id n = node_id t) nodes = Some t"
    and ex: "execute env nodes edges fuel s = Some (Inr r, s')"
  shows "\<exists>l res rs. results s' = results s @ NodeResult t l res # rs"
proof -
  note kept = results_kept_closed
  from ex [unfolded execute_def] have
    "then_act (log_exec env Info ''Starting agent execution'' JUndefined)
       (\<lambda>u. case find is_trigger nodes of
            None \<Rightarrow> throw_act ''No trigger node found''
          | Some t \<Rightarrow> run_from env nodes edges fuel t) s = Some (Inr r, s')"
  proof (cases rule: catch_act_cases)
    case (caught err s1)
    from caught(2) show ?thesis
      by (auto simp: execute_failed_def throw_act_def elim!: then_act_cases)
  next
    case (passed x)
    then show ?thesis by simp
  qed
  then obtain u1 s1 where
    1: "log_exec env Info ''Starting agent execution'' JUndefined s = Some (Inr u1, s1)"
    and r1: "run_from env nodes edges fuel t s1 = Some (Inr r, s')"
    by (cases rule: then_act_cases) (simp_all add: t)
  from r1 [unfolded run_from_def] obtain lbl s2 where
    2: "eval_act (node_label env t) s1 = Some (Inr lbl, s2)"
    and r2: "then_act (log_exec env Info (''Trigger found: '' @ lbl) JUndefined) (\<lambda>u.
     then_act (executeNode env nodes edges fuel (node_id t) (JObj [])) (\<lambda>results.
     then_act (log_exec env Info ''Agent execution completed successfully'' JUndefined) (\<lambda>u.
     return_act results))) s2 = Some (Inr r, s')"
    by (cases rule: then_act_cases) simp_all
  from r2 obtain u3 s3 where
    3: "log_exec env Info (''Trigger found: '' @ lbl) JUndefined s2 = Some (Inr u3, s3)"
    and r3: "then_act (executeNode env nodes edges fuel (node_id t) (JObj [])) (\<lambda>results.
     then_act (log_exec env Info ''Agent execution completed successfully'' JUndefined) (\<lambda>u.
     return_act results)) s3 = Some (Inr r, s')"
    by (cases rule: then_act_cases) simp_all
  from r3 obtain r4 s4 where
    4: "executeNode env nodes edges fuel (node_id t) (JObj []) s3 = Some (Inr r4, s4)"
    and r4: "then_act (log_exec env Info ''Agent execution completed successfully'' JUndefined)
      (\<lambda>u. return_act r4) s4 = Some (Inr r, s')"
    by (cases rule: then_act_cases) simp_all
  from r4 obtain u5 where
    5: "log_exec env Info ''Agent execution completed successfully'' JUndefined s4
      = Some (Inr u5, s')"
    by (cases rule: then_act_cases) (simp_all add: return_act_def)
  from 4 obtain k where k: "fuel = Suc k" by (cases fuel) simp_all
  from 4 [unfolded k] i have
    v: "visit env edges (executeNode env nodes edges k) (node_id t) t (JObj []) s3
      = Some (Inr r4, s4)"
    by simp
  have "\<exists>l res rs. results s4 = results s3 @ NodeResult t l res # rs"
  proof (rule visit_records [OF up v])
    fix nid c
    show "preserves (\<lambda>s s'. \<exists>rs. results s' = results s @ rs) (executeNode env nodes edges k nid c)"
      using preserves_executeNode [OF results_extend_closed [where P = "\<lambda>x. True", simplified],
          where ids = UNIV]
      by simp
  qed
  moreover have "results s1 = results s" "results s3 = results s2" "results s' = results s4"
    using preserves_log_exec [OF kept, of env] 1 3 5 unfolding preserves_def by blast+
  moreover have "s2 = s1" using 2 by (simp add: eval_act_def)
  ultimately show ?thesis by auto
qed

text \<open>
  Claim C10, as the code has it. \<^verbatim>\<open>execute\<close> checks nothing about the number of
  triggers. When no node that stands before the first trigger of the array has the id
  of that trigger, the run starts from it: the lookup of its id finds it, so that it
  is the node \<^verbatim>\<open>executeNode\<close> runs first, and when the store fulfils the updates and
  \<^verbatim>\<open>execute\<close> returns, its result is the first one recorded. Every result recorded
  is that of the first trigger or of the target of an edge: another trigger is run
  only where an edge leads to it. And \<^verbatim>\<open>execute\<close> throws nothing when the data of
  every node is a plain object with a primitive label or none and no imported handler
  rejects; it then returns, from some depth on, when moreover the edges have no cycle
  and every promise settles.
\<close>

theorem first_trigger_is_entry:
  assumes "\<forall>n \<in> set pre. \<not> is_trigger n \<and> node_id n \<noteq> node_id t" and "is_trigger t"
  shows "executeNode env (pre @ t # post) edges (Suc fuel) (node_id t) c
      = visit env edges (executeNode env (pre @ t # post) edges fuel) (node_id t) t c
    \<and> (\<forall>out s'. execute env (pre @ t # post) edges fuel s = Some (out, s')
        \<longrightarrow> (\<exists>rs. results s' = results s @ rs
              \<and> (\<forall>x \<in> set rs. own_prop x ''nodeId'' = Some (JStr (node_id t))
                    \<or> (\<exists>e \<in> set edges. own_prop x ''nodeId'' = Some (JStr (target e))))
              \<and> (updates_accepted env \<and> \<not> isl out
                  \<longrightarrow> (\<exists>l res rs'. rs = NodeResult t l res # rs'))))
    \<and> (handlers_return env \<and> plain_data (pre @ t # post)
        \<longrightarrow> (\<forall>err s'. execute env (pre @ t # post) edges fuel s \<noteq> Some (Inl err, s'))
          \<and> (acyclic_by rank edges \<and> settles env
              \<longrightarrow> (\<exists>N r s'. \<forall>k \<ge> N.
                     execute env (pre @ t # post) edges k s = Some (Inr r, s'))))"
proof (intro conjI allI impI)
  note f = find_first_trigger [OF assms, of post]
  show "executeNode env (pre @ t # post) edges (Suc fuel) (node_id t) c
      = visit env edges (executeNode env (pre @ t # post) edges fuel) (node_id t) t c"
    by (simp add: f(2))
  {
    fix out s'
    assume ex: "execute env (pre @ t # post) edges fuel s = Some (out, s')"
    from execute_records_reached [OF ex f(1)] obtain rs where
      rs: "results s' = results s @ rs"
        "\<forall>x \<in> set rs. own_prop x ''nodeId'' = Some (JStr (node_id t))
            \<or> (\<exists>e \<in> set edges. own_prop x ''nodeId'' = Some (JStr (target e)))"
      by blast
    have "\<exists>l res rs'. rs = NodeResult t l res # rs'" if "updates_accepted env \<and> \<not> isl out"
    proof -
      from that obtain r where "out = Inr r" by (cases out) auto
      from execute_first_result [OF _ f ex [unfolded this]] that rs(1)
      show ?thesis by auto
    qed
    with rs show "\<exists>rs. results s' = results s @ rs
              \<and> (\<forall>x \<in> set rs. own_prop x ''nodeId'' = Some (JStr (node_id t))
                    \<or> (\<exists>e \<in> set edges. own_prop x ''nodeId'' = Some (JStr (target e))))
              \<and> (updates_accepted env \<and> \<not> isl out
                  \<longrightarrow> (\<exists>l res rs'. rs = NodeResult t l res # rs'))"
      by blast
  }
  assume h: "handlers_return env \<and> plain_data (pre @ t # post)"
  then have nt: "no_throw (execute env (pre @ t # post) edges k)" for k
    by (intro no_throw_execute [OF _ _ f(1)]) simp_all
  {
    fix err s'
    from nt [of fuel] show "execute env (pre @ t # post) edges fuel s \<noteq> Some (Inl err, s')"
      by (simp add: no_throw_def)
  }
  assume a: "acyclic_by rank edges \<and> settles env"
  from execute_returns [of rank edges env "pre @ t # post" s] a obtain N out s' where
    ex: "\<And>k. N \<le> k \<Longrightarrow> execute env (pre @ t # post) edges k s = Some (out, s')"
    by (metis surj_pair)
  from nt [of N] ex [of N] obtain r where "out = Inr r"
    by (cases out) (auto simp: no_throw_def)
  with ex show "\<exists>N r s'. \<forall>k \<ge> N. execute env (pre @ t # post) edges k s = Some (Inr r, s')"
    by blast
qed

theorem first_trigger_is_entry_witness:
  "is_trigger (mk_node ''t1'' ''webhookTrigger'') \<and> is_trigger (mk_node ''t2'' ''trigger'')
   \<and> is_trigger (mk_node ''t3'' ''scheduleTrigger'')
   \<and> triggers_nodes = [mk_node ''a'' ''aiAction''] @ mk_node ''t1'' ''webhookTrigger''
        # [mk_node ''t2'' ''trigger'', mk_node ''t3'' ''scheduleTrigger'']
   \<and> handlers_return env0 \<and> plain_data triggers_nodes \<and> updates_accepted env0
   \<and> acyclic_by (\<lambda>i. if i = ''t1'' then 1 else 0) triggers_edges \<and> settles env0
   \<and> (case execute env0 triggers_nodes triggers_edges 2 (new_execution ''a'' ''u'') of
         Some (Inr r, s) \<Rightarrow>
           result_ids s = [Some (JStr ''t1''), Some (JStr ''a''), Some (JStr ''t3'')]
       | _ \<Rightarrow> False)
   \<and> (\<exists>l res rs. \<forall>r s. execute env0 triggers_nodes triggers_edges 2 (new_execution ''a'' ''u'')
          = Some (Inr r, s)
        \<longrightarrow> results s = NodeResult (mk_node ''t1'' ''webhookTrigger'') l res # rs)
   \<and> (\<exists>N r s'. \<forall>k \<ge> N.
         execute env0 triggers_nodes triggers_edges k (new_execution ''a'' ''u'')
           = Some (Inr r, s'))"
proof -
  let ?t = "mk_node ''t1'' ''webhookTrigger''"
  let ?g = "[mk_node ''a'' ''aiAction''] @ ?t
        # [mk_node ''t2'' ''trigger'', mk_node ''t3'' ''scheduleTrigger'']"
  let ?rank = "\<lambda>i. if i = ''t1'' then 1 else (0::nat)"
  have g: "triggers_nodes = ?g" by (simp add: triggers_nodes_def)
  have t: "is_trigger ?t" "is_trigger (mk_node ''t2'' ''trigger'')"
    "is_trigger (mk_node ''t3'' ''scheduleTrigger'')"
    by (simp_all add: is_trigger_def mk_node_def)
  have p: "\<forall>n \<in> set [mk_node ''a'' ''aiAction'']. \<not> is_trigger n \<and> node_id n \<noteq> node_id ?t"
    by (simp add: is_trigger_def mk_node_def)
  have d: "plain_data triggers_nodes"
    by (simp add: plain_data_def plain_label_def triggers_nodes_def mk_node_def)
  have a: "acyclic_by ?rank triggers_edges"
    by (simp add: acyclic_by_def triggers_edges_def mk_edge_def)
  have run: "(case execute env0 triggers_nodes triggers_edges 2 (new_execution ''a'' ''u'') of
         Some (Inr r, s) \<Rightarrow>
           result_ids s = [Some (JStr ''t1''), Some (JStr ''a''), Some (JStr ''t3'')]
       | _ \<Rightarrow> False)"
    by (simp add: run_defs ex_defs triggers_nodes_def triggers_edges_def)
  have "\<exists>r0 s0. execute env0 triggers_nodes triggers_edges 2 (new_execution ''a'' ''u'')
      = Some (Inr r0, s0)"
  proof (cases "execute env0 triggers_nodes triggers_edges 2 (new_execution ''a'' ''u'')")
    case None
    with run show ?thesis by simp
  next
    case (Some p)
    obtain out s0 where p: "p = (out, s0)" by (cases p)
    from run Some p show ?thesis by (cases out) simp_all
  qed
  then obtain r0 s0 where
    ex: "execute env0 triggers_nodes triggers_edges 2 (new_execution ''a'' ''u'') = Some (Inr r0, s0)"
    by blast
  note th = first_trigger_is_entry [OF p t(1), of env0
      "[mk_node ''t2'' ''trigger'', mk_node ''t3'' ''scheduleTrigger'']" triggers_edges _ _
      "new_execution ''a'' ''u''" ?rank, folded g]
  from th [of 2 JNull, THEN conjunct2, THEN conjunct1, rule_format, OF ex] updates_accepted_env0
  obtain l res rs where "results s0 = NodeResult ?t l res # rs"
    by auto
  with ex have first: "\<exists>l res rs. \<forall>r s.
      execute env0 triggers_nodes triggers_edges 2 (new_execution ''a'' ''u'') = Some (Inr r, s)
        \<longrightarrow> results s = NodeResult ?t l res # rs"
    by auto
  from th [of 0 JNull, THEN conjunct2, THEN conjunct2] handlers_return_env0 d a settles_env0
  have "\<exists>N r s'. \<forall>k \<ge> N.
      execute env0 triggers_nodes triggers_edges k (new_execution ''a'' ''u'') = Some (Inr r, s')"
    by blast
  with t g handlers_return_env0 d updates_accepted_env0 a settles_env0 run first
  show ?thesis by (intro conjI)
qed

text \<open>
  Claim C10 as stated, for every graph with several triggers, fails in two ways.
  When a node of another type stands first and has the id of the first trigger, the
  run starts from that node, and no trigger is ever run. And when the first trigger
  has no data, \<^verbatim>\<open>execute\<close> fails on reading its label, although a second trigger
  stands behind it.
\<close>

theorem first_trigger_not_always_entry:
  "find is_trigger twin_nodes = Some (mk_node ''1'' ''trigger'')
   \<and> (case execute env0 twin_nodes [] 1 (new_execution ''a'' ''u'') of
        Some (Inr r, s) \<Rightarrow>
          map (\<lambda>x. own_prop x ''nodeType'') (results s) = [Some (JStr ''aiAction'')]
      | _ \<Rightarrow> False)
   \<and> (case execute env0 bare_nodes [] 1 (new_execution ''a'' ''u'') of
        Some (Inl err, s) \<Rightarrow>
          err = ''Cannot read properties of null (reading '' @ [CHR 0x27] @ ''label''
                  @ [CHR 0x27] @ '')''
          \<and> results s = []
      | _ \<Rightarrow> False)"
  by (simp add: run_defs ex_defs twin_nodes_def bare_nodes_def)

subsection \<open>The results that are recorded\<close>

text \<open>
  Claim C4 asks for a time stamp in every recorded result, and for one result for
  every visit of a node. The object that \<^verbatim>\<open>executeNode\<close> hands to
  \<^verbatim>\<open>addResult\<close> has four fields, none of them a time stamp: the run of a single
  trigger records that object and nothing else. And when the store rejects the
  update, \<^verbatim>\<open>addResult\<close> writes the error to the console and the run goes on: it
  completes, having visited one node and recorded no result.
\<close>

theorem node_result_without_timestamp:
  "own_prop (NodeResult n l result) ''timestamp'' = None
   \<and> map fst (own_entries rt (NodeResult n l result))
       = [''nodeId'', ''nodeType'', ''nodeLabel'', ''result'']
   \<and> (case executeAgentWorkflow env0 1 ''a'' ''u'' [mk_node ''t'' ''trigger''] [] of
        Some (Inr v, s) \<Rightarrow>
          results s = [JObj [(''nodeId'', JStr ''t''), (''nodeType'', JStr ''trigger''),
                             (''nodeLabel'', JUndefined), (''result'', JObj [])]]
      | _ \<Rightarrow> False)
   \<and> (case executeAgentWorkflow env_no_update 1 ''a'' ''u'' [mk_node ''t'' ''trigger''] [] of
        Some (Inr v, s) \<Rightarrow>
          status s = Completed \<and> results s = []
          \<and> console s = [ConsoleError ''Failed to log:'' (JStr ''store down''),
               ConsoleError ''Failed to log:'' (JStr ''store down''),
               ConsoleError ''Failed to log:'' (JStr ''store down''),
               ConsoleError ''Failed to add result:'' (JStr ''store down''),
               ConsoleError ''Failed to log:'' (JStr ''store down'')]
      | _ \<Rightarrow> False)"
  by (simp add: run_defs ex_defs env_no_update_def)

subsection \<open>A condition node\<close>

text \<open>
  Claim C2 has the walker follow one edge out of a condition node. \<^verbatim>\<open>executeNode\<close>
  runs the target of every edge out of the node \<open>c\<close>, first \<open>a\<close> and then \<open>b\<close>,
  whichever outcome the handler of the condition merged into the context.
\<close>

theorem condition_node_runs_every_edge:
  "\<forall>b. (case executeAgentWorkflow (env_cond b) 3 ''a'' ''u'' branch_nodes branch_edges of
      Some (Inr u, s) \<Rightarrow>
        result_ids s = [Some (JStr ''t''), Some (JStr ''c''), Some (JStr ''a''), Some (JStr ''b'')]
        \<and> map (\<lambda>r. Option.bind (own_prop r ''result'') (\<lambda>x. own_prop x ''conditionResult''))
              (results s)
            = [None, Some (JBool b), Some (JBool b), Some (JBool b)]
    | _ \<Rightarrow> False)"
  by (simp add: run_defs ex_defs env_cond_def branch_nodes_def branch_edges_def)

text \<open>
  \<^verbatim>\<open>executeCondition\<close>, the method that \<^verbatim>\<open>executeNode\<close> does not call, follows one
  edge: here the condition type is \<^verbatim>\<open>simple\<close> and there is no condition, so the
  outcome is the random draw \<open>b\<close>, and the run goes to \<open>a\<close> when it is true and to
  \<open>b\<close> when it is false.
\<close>

lemma executeCondition_follows_one_edge:
  "\<forall>b. (case executeCondition env0 branch_nodes branch_edges 2 b other
             (mk_node ''c'' ''condition'') (JObj []) (new_execution ''a'' ''u'') of
      Some (Inr r, s) \<Rightarrow>
        result_ids s = [Some (JStr (if b then ''a'' else ''b''))]
        \<and> r = JObj [(''conditionResult'', JBool b)]
    | _ \<Rightarrow> False)"
  by (simp add: executeCondition_def conditionMet_of_def destructure_def with_default_def
      nth_opt_def run_defs ex_defs branch_nodes_def branch_edges_def)

subsection \<open>The handler of an API call\<close>

text \<open>
  Claim C3 has the request described by \<^verbatim>\<open>node.data\<close>, a block of status, data and
  headers merged into the context, and a failure logged. \<^verbatim>\<open>apiCallNode\<close>, which the
  \<^verbatim>\<open>switch\<close> runs for the types \<^verbatim>\<open>apiCall\<close> and \<^verbatim>\<open>action\<close>, reads the request
  from the node itself: for a node with the fields of the interface \<^verbatim>\<open>Node\<close> the
  request has no URL, the method \<^verbatim>\<open>GET\<close> and empty headers and data, whatever
  \<^verbatim>\<open>node.data\<close> holds. What it merges is the body of the response alone, under
  \<^verbatim>\<open>apiResult\<close>. A failure goes to the console, not to the log of the Execution.
  The method \<^verbatim>\<open>executeApiCall\<close> of the class, which nothing calls, does what the
  claim says on success: it sends the URL and the method of \<^verbatim>\<open>node.data\<close>, merges
  the block under \<^verbatim>\<open>apiResponse\<close> and logs to the Execution.
\<close>

theorem api_call_node_ignores_node_data:
  "api_request rt \<lparr>node_id = i, node_type = t, node_data = d, node_props = []\<rparr>
     = Inr \<lparr>req_method = JStr ''GET'', req_url = JUndefined, req_headers = JObj [],
            req_data = JObj [], req_timeout = None\<rparr>
   \<and> dispatch env_echo api_node (JObj [(''x'', JNum (Fin 1))]) s
     = Some (Inr (JObj [(''x'', JNum (Fin 1)),
               (''apiResult'', JObj [(''url'', JUndefined), (''method'', JStr ''GET'')])]), s)
   \<and> dispatch env0 api_node ctx s
     = Some (Inr ctx,
          s\<lparr>console := console s
             @ [ConsoleError ''API Node Failed'' (JStr ''connect ECONNREFUSED'')]\<rparr>)
   \<and> (case executeApiCall env_echo now api_node (JObj [(''x'', JNum (Fin 1))])
             (new_execution ''a'' ''u'') of
        Some (Inr r, s') \<Rightarrow>
          r = JObj [(''x'', JNum (Fin 1)),
                (''apiResponse'',
                  JObj [(''status'', JNum (Fin 200)),
                        (''data'', JObj [(''url'', JStr ''http://example.test/''),
                                         (''method'', JStr ''POST'')]),
                        (''headers'', JObj [])])]
          \<and> map log_level (logs s') = [Info, Info]
      | _ \<Rightarrow> False)"
  by (simp add: executeApiCall_def api_call_request_def destructure_def with_default_def
      run_defs ex_defs env_echo_def api_node_def)

text \<open>
  When the request fails, \<^verbatim>\<open>executeApiCall\<close> logs the error to the Execution and
  returns the context with a simulated response, not the context it was given.
\<close>

lemma executeApiCall_failure_changes_context:
  "(case executeApiCall env0 ''2026-01-01'' api_node (JObj []) (new_execution ''a'' ''u'') of
      Some (Inr r, s) \<Rightarrow>
        r = JObj [(''apiResponse'',
              JObj [(''status'', JNum (Fin 200)),
                    (''data'', JObj [(''message'', JStr ''API call simulated (no URL provided)''),
                                     (''timestamp'', JStr ''2026-01-01'')])])]
        \<and> map log_level (logs s) = [Info, Error]
    | _ \<Rightarrow> False)"
  by (simp add: executeApiCall_def api_call_request_def destructure_def with_default_def
      simulated_response_def run_defs ex_defs api_node_def)

section \<open>Properties of the condition evaluator\<close>

subsection \<open>Splitting\<close>

lemma split_from_not_Nil: "split_from sep acc s \<noteq> []"
  by (induction sep acc s rule: split_from.induct) simp_all

lemma split_from_two:
  "sep \<noteq> [] \<Longrightarrow> includes_str s sep \<Longrightarrow> \<exists>l r rest. split_from sep acc s = l # r # rest"
proof (induction sep acc s rule: split_from.induct)
  case (1 sep acc)
  then show ?case by simp
next
  case (2 sep acc c cs)
  show ?case
  proof (cases "starts_with (c # cs) sep")
    case True
    obtain r rest where "split_from sep [] (drop (length sep) (c # cs)) = r # rest"
      using split_from_not_Nil [of sep "[]" "drop (length sep) (c # cs)"]
      by (cases "split_from sep [] (drop (length sep) (c # cs))") auto
    with True "2.prems" show ?thesis by simp
  next
    case False
    with "2.prems" have "includes_str cs sep" by simp
    with "2.IH"(2) "2.prems"(1) False show ?thesis by simp
  qed
qed

lemma split_str_two:
  "op \<noteq> [] \<Longrightarrow> includes_str condition op
    \<Longrightarrow> \<exists>l r rest. split_str condition op = l # r # rest"
  by (simp add: split_str_def split_from_two)

lemma split_from_no_sep:
  "c \<notin> set k \<Longrightarrow> split_from [c] acc (k @ rest) = split_from [c] (rev k @ acc) rest"
  by (induction k arbitrary: acc) (auto simp: starts_with_def)

lemma split_from_dotted:
  "\<forall>k \<in> set (k0 # ks). CHR ''.'' \<notin> set k
    \<Longrightarrow> split_from ''.'' acc (dotted (k0 # ks)) = (rev acc @ k0) # ks"
proof (induction ks arbitrary: k0 acc)
  case Nil
  then have "CHR ''.'' \<notin> set k0" by simp
  from split_from_no_sep [OF this, of acc "[]"] show ?case by simp
next
  case (Cons k1 ks)
  then have k0: "CHR ''.'' \<notin> set k0" and rest: "\<forall>k \<in> set (k1 # ks). CHR ''.'' \<notin> set k"
    by simp_all
  have "split_from ''.'' acc (dotted (k0 # k1 # ks))
      = split_from ''.'' (rev k0 @ acc) (''.'' @ dotted (k1 # ks))"
    using split_from_no_sep [OF k0, of acc "''.'' @ dotted (k1 # ks)"] by simp
  also have "\<dots> = (rev acc @ k0) # split_from ''.'' [] (dotted (k1 # ks))"
    by (simp add: starts_with_def)
  also have "split_from ''.'' [] (dotted (k1 # ks)) = k1 # ks"
    using Cons.IH [OF rest, of "[]"] by simp
  finally show ?case .
qed

lemma split_str_dotted:
  assumes "ks \<noteq> []" and "\<forall>k \<in> set ks. CHR ''.'' \<notin> set k"
  shows "split_str (dotted ks) ''.'' = ks"
proof -
  from assms(1) obtain k0 ks' where ks: "ks = k0 # ks'" by (cases ks) auto
  from split_from_dotted [OF assms(2) [unfolded ks], of "[]"] show ?thesis
    by (simp add: split_str_def ks)
qed

subsection \<open>The operator that is matched\<close>

lemma starts_with_append: "starts_with s (p @ q) \<Longrightarrow> starts_with s p"
  by (auto simp: starts_with_def take_add append_eq_conv_conj min_def split: if_splits)

lemma includes_str_prefix: "includes_str s (p @ q) \<Longrightarrow> includes_str s p"
proof (induction s)
  case Nil
  then show ?case by simp
next
  case (Cons c cs)
  then show ?case using starts_with_append [of "c # cs" p q] by auto
qed

text \<open>
  \<^verbatim>\<open>>=\<close> and \<^verbatim>\<open><=\<close> are never the operator that is matched: a condition that
  includes one of them includes \<^verbatim>\<open>>\<close> or \<^verbatim>\<open><\<close>, which stands before it.
\<close>

lemma matched_operator:
  "find (includes_str condition) operators
    \<in> {None, Some ''=='', Some ''!='', Some ''>'', Some ''<''}"
  using includes_str_prefix [of condition "''>''" "''=''"]
    includes_str_prefix [of condition "''<''" "''=''"]
  by (simp add: operators_def)

text \<open>
  Claim C1 has \<^verbatim>\<open>>=\<close> matched before \<^verbatim>\<open>>\<close>. In \<open>operators\<close> it stands behind, so
  \<^verbatim>\<open>x >= 5\<close> is read as \<^verbatim>\<open>x > "= 5"\<close>: with \<open>x = 5\<close> the condition is false, where
  \<^verbatim>\<open>5 >= 5\<close> is true. And \<^verbatim>\<open>split\<close> cuts at every occurrence of the operator, not
  at the first one only: of three pieces the third is dropped.
\<close>

theorem greater_or_equal_read_as_greater:
  "find (includes_str ''x >= 5'') operators = Some ''>''
   \<and> map trim (split_str ''x >= 5'' ''>'') = [''x'', ''= 5'']
   \<and> evaluateSimpleCondition rt ''x >= 5'' (JObj [(''x'', JNum (Fin 5))]) = Inr False
   \<and> compareValues rt (JNum (Fin 5)) (JNum (Fin 5)) ''>='' = Inr True
   \<and> map trim (split_str ''a == 1 == 2'' ''=='') = [''a'', ''1'', ''2'']"
  by code_simp

subsection \<open>Comparing with \<^verbatim>\<open>undefined\<close>\<close>

lemma parseValue_kinds:
  "(\<exists>n. n \<noteq> NaN \<and> parseValue v = JNum n) \<or> (\<exists>b. parseValue v = JBool b)
    \<or> (\<exists>s. parseValue v = JStr s)"
  unfolding parseValue_def Let_def by (simp only: jsval.inject split: if_split) blast

lemma parseValue_literal: "as_prim (parseValue v) \<notin> {None, Some PUndefined, Some PNull}"
  using parseValue_kinds [of v] by auto

lemma num_lt_NaN [simp]: "num_lt a NaN = None"
  by (cases a) simp_all

lemma prim_lt_undefined [simp]: "prim_lt PUndefined q = None" "prim_lt p PUndefined = None"
  by (simp_all add: prim_lt_def split: prim.splits)

lemma compareValues_undefined_each:
  assumes "as_prim right \<notin> {None, Some PUndefined, Some PNull}"
  shows "compareValues rt JUndefined right ''=='' = Inr False"
    and "compareValues rt JUndefined right ''!='' = Inr True"
    and "compareValues rt JUndefined right ''>'' = Inr False"
    and "compareValues rt JUndefined right ''<'' = Inr False"
    and "compareValues rt JUndefined right ''>='' = Inr False"
    and "compareValues rt JUndefined right ''<='' = Inr False"
proof -
  from assms obtain q where q: "as_prim right = Some q" "q \<noteq> PUndefined" "q \<noteq> PNull"
    by auto
  then have e: "prim_eq PUndefined q = False"
    by (cases q) (simp_all add: prim_eq.simps [of PUndefined])
  from q e show "compareValues rt JUndefined right ''=='' = Inr False"
    and "compareValues rt JUndefined right ''!='' = Inr True"
    and "compareValues rt JUndefined right ''>'' = Inr False"
    and "compareValues rt JUndefined right ''<'' = Inr False"
    and "compareValues rt JUndefined right ''>='' = Inr False"
    and "compareValues rt JUndefined right ''<='' = Inr False"
    by (simp_all add: compareValues_def IsLooselyEqual_def IsLessThan_def ToPrimitive_def
        js_lt_def js_gt_def js_le_def js_ge_def)
qed

lemma compareValues_undefined:
  assumes "op \<in> set operators"
    and "as_prim right \<notin> {None, Some PUndefined, Some PNull}"
  shows "compareValues rt JUndefined right op = Inr (op = ''!='')"
proof -
  from assms(1) have "op = ''=='' \<or> op = ''!='' \<or> op = ''>'' \<or> op = ''<''
      \<or> op = ''>='' \<or> op = ''<=''"
    by (simp add: operators_def)
  then show ?thesis
  proof (elim disjE)
    assume "op = ''==''"
    then show ?thesis by (simp add: compareValues_undefined_each(1) [OF assms(2)])
  next
    assume "op = ''!=''"
    then show ?thesis by (simp add: compareValues_undefined_each(2) [OF assms(2)])
  next
    assume "op = ''>''"
    then show ?thesis by (simp add: compareValues_undefined_each(3) [OF assms(2)])
  next
    assume "op = ''<''"
    then show ?thesis by (simp add: compareValues_undefined_each(4) [OF assms(2)])
  next
    assume "op = ''>=''"
    then show ?thesis by (simp add: compareValues_undefined_each(5) [OF assms(2)])
  next
    assume "op = ''<=''"
    then show ?thesis by (simp add: compareValues_undefined_each(6) [OF assms(2)])
  qed
qed

lemma split_str_plain: "CHR ''.'' \<notin> set k \<Longrightarrow> split_str k ''.'' = [k]"
  using split_str_dotted [of "[k]"] by simp

text \<open>
  Claim C7, as the code has it. A key of any number of segments walks one property
  for each segment, and the left operand is looked up so. A name that a plain object
  neither holds nor inherits from \<^verbatim>\<open>Object.prototype\<close> resolves to \<^verbatim>\<open>undefined\<close>.
  When the left operand resolves to \<^verbatim>\<open>undefined\<close> the condition is false for every
  operator that can be matched except \<^verbatim>\<open>!=\<close>, for which it is true;
  \<^verbatim>\<open>missing > 5\<close> on the empty context is false.
\<close>

theorem missing_left_operand:
  "(ks \<noteq> [] \<and> (\<forall>k \<in> set ks. CHR ''.'' \<notin> set k)
      \<longrightarrow> getContextValue rt (dotted ks) ctx = walk_keys rt ctx ks)
   \<and> getContextValue rt ''user.age'' ctx
      = (case opt_get rt ctx ''user'' of Inl err \<Rightarrow> Inl err | Inr u \<Rightarrow> opt_get rt u ''age'')
   \<and> (CHR ''.'' \<notin> set k \<and> map_of kvs k = None \<and> k \<notin> set object_prototype_keys
      \<longrightarrow> getContextValue rt k (JObj kvs) = Inr JUndefined)
   \<and> (find (includes_str condition) operators = Some op
        \<and> getContextValue rt (trim (hd (split_str condition op))) ctx = Inr JUndefined
      \<longrightarrow> evaluateSimpleCondition rt condition ctx = Inr (op = ''!=''))
   \<and> evaluateSimpleCondition rt ''missing > 5'' (JObj []) = Inr False"
proof (intro conjI impI)
  assume "ks \<noteq> [] \<and> (\<forall>k \<in> set ks. CHR ''.'' \<notin> set k)"
  then have "split_str (dotted ks) ''.'' = ks"
    by (intro split_str_dotted) blast+
  then show "getContextValue rt (dotted ks) ctx = walk_keys rt ctx ks"
    by (simp only: getContextValue_def)
next
  have "split_str (dotted [''user'', ''age'']) ''.'' = [''user'', ''age'']"
    by (rule split_str_dotted) simp_all
  then have "split_str ''user.age'' ''.'' = [''user'', ''age'']" by simp
  then show "getContextValue rt ''user.age'' ctx
      = (case opt_get rt ctx ''user'' of Inl err \<Rightarrow> Inl err | Inr u \<Rightarrow> opt_get rt u ''age'')"
    by (simp add: getContextValue_def split: sum.splits)
next
  assume a: "CHR ''.'' \<notin> set k \<and> map_of kvs k = None \<and> k \<notin> set object_prototype_keys"
  then have "split_str k ''.'' = [k]" by (simp add: split_str_plain)
  with a show "getContextValue rt k (JObj kvs) = Inr JUndefined"
    by (simp add: getContextValue_def opt_get_def nullish_def get_prop_def)
next
  assume a: "find (includes_str condition) operators = Some op
    \<and> getContextValue rt (trim (hd (split_str condition op))) ctx = Inr JUndefined"
  then have op: "op \<in> set operators" and inc: "includes_str condition op"
    by (auto simp: find_Some_iff)
  from op have "op \<noteq> []" by (auto simp: operators_def)
  from split_str_two [OF this inc] obtain l r rest where
    sp: "split_str condition op = l # r # rest" by blast
  with a have l: "getContextValue rt (trim l) ctx = Inr JUndefined" by simp
  have "compareValues rt JUndefined (parseValue (trim r)) op = Inr (op = ''!='')"
    by (rule compareValues_undefined [OF op parseValue_literal])
  with a sp l show "evaluateSimpleCondition rt condition ctx = Inr (op = ''!='')"
    by (simp add: evaluateSimpleCondition_def)
next
  have f: "find (includes_str ''missing > 5'') operators = Some ''>''"
    by code_simp
  have s: "map trim (split_str ''missing > 5'' ''>'') = [''missing'', ''5'']"
    by code_simp
  have g: "getContextValue rt ''missing'' (JObj []) = Inr JUndefined"
    by code_simp
  have "''>'' \<in> set operators" by (simp add: operators_def)
  then have "compareValues rt JUndefined (parseValue ''5'') ''>'' = Inr (''>'' = ''!='')"
    by (rule compareValues_undefined [OF _ parseValue_literal])
  then show "evaluateSimpleCondition rt ''missing > 5'' (JObj []) = Inr False"
    by (simp add: evaluateSimpleCondition_def f s g)
qed

theorem missing_left_operand_witness:
  "getContextValue rt0 ''account.owner.age''
      (JObj [(''account'', JObj [(''owner'', JObj [(''age'', JNum (Fin 30))])])])
      = Inr (JNum (Fin 30))
   \<and> map_of [(''present'', JNull)] ''missing'' = None
   \<and> getContextValue rt0 ''missing'' (JObj [(''present'', JNull)]) = Inr JUndefined
   \<and> find (includes_str ''missing < 5'') operators = Some ''<''
   \<and> getContextValue rt0 (trim (hd (split_str ''missing < 5'' ''<''))) (JObj []) = Inr JUndefined
   \<and> evaluateSimpleCondition rt0 ''missing < 5'' (JObj []) = Inr False"
proof -
  let ?ctx = "JObj [(''account'', JObj [(''owner'', JObj [(''age'', JNum (Fin 30))])])]"
  have a: "[''account'', ''owner'', ''age''] \<noteq> []
      \<and> (\<forall>k \<in> set [''account'', ''owner'', ''age'']. CHR ''.'' \<notin> set k)"
    by simp
  have b: "walk_keys rt0 ?ctx [''account'', ''owner'', ''age''] = Inr (JNum (Fin 30))"
    by code_simp
  have c: "find (includes_str ''missing < 5'') operators = Some ''<''" by code_simp
  have d: "getContextValue rt0 (trim (hd (split_str ''missing < 5'' ''<''))) (JObj [])
      = Inr JUndefined"
    by code_simp
  have m: "CHR ''.'' \<notin> set ''missing'' \<and> map_of [(''present'', JNull)] ''missing'' = None
      \<and> ''missing'' \<notin> set object_prototype_keys"
    by (simp add: object_prototype_keys_def)
  note th = missing_left_operand
  from th [where ks = "[''account'', ''owner'', ''age'']" and ctx = ?ctx and rt = rt0] a b
  have e: "getContextValue rt0 ''account.owner.age'' ?ctx = Inr (JNum (Fin 30))"
    by simp
  from th [where k = "''missing''" and kvs = "[(''present'', JNull)]" and rt = rt0] m
  have f: "getContextValue rt0 ''missing'' (JObj [(''present'', JNull)]) = Inr JUndefined"
    by blast
  from th [where condition = "''missing < 5''" and op = "''<''"
      and ctx = "JObj []" and rt = rt0] c d
  have "evaluateSimpleCondition rt0 ''missing < 5'' (JObj []) = Inr False"
    by simp
  with c d e f m show ?thesis by simp
qed

text \<open>
  Claim C7 as stated has every comparison of a missing path false. With \<^verbatim>\<open>!=\<close> it
  is true.
\<close>

theorem missing_not_equal_is_true:
  "\<forall>rt. getContextValue rt ''missing'' (JObj []) = Inr JUndefined
     \<and> parseValue ''5'' = JNum (Fin 5)
     \<and> evaluateSimpleCondition rt ''missing != 5'' (JObj []) = Inr True"
  by (intro allI) code_simp

text \<open>
  A name that a plain object inherits is not missing: what \<^verbatim>\<open>constructor.name\<close>
  reads on the empty context is what the runtime has there.
\<close>

lemma inherited_property_read:
  "getContextValue rt ''constructor.name'' (JObj [])
     = (case protoGet rt (JObj []) ''constructor'' of
          Inl err \<Rightarrow> Inl err
        | Inr c \<Rightarrow> opt_get rt c ''name'')"
proof -
  have "split_str (dotted [''constructor'', ''name'']) ''.'' = [''constructor'', ''name'']"
    by (rule split_str_dotted) simp_all
  then have "split_str ''constructor.name'' ''.'' = [''constructor'', ''name'']" by simp
  then show ?thesis
    by (simp add: getContextValue_def opt_get_def nullish_def get_prop_def
        object_prototype_keys_def split: sum.splits)
qed

lemma inherited_constructor_name:
  "evaluateSimpleCondition rt_constructor ''constructor.name == Object'' (JObj []) = Inr True
   \<and> evaluateSimpleCondition rt_constructor ''missing == Object'' (JObj []) = Inr False"
  by code_simp

subsection \<open>Doubles\<close>

lemma bit_length_le: "n < 2 ^ k \<Longrightarrow> bit_length n \<le> k"
proof (induction k arbitrary: n)
  case 0
  then show ?case by (simp add: bit_length.simps [of n])
next
  case (Suc k)
  show ?case
  proof (cases "n \<le> 0")
    case True
    then show ?thesis by (simp add: bit_length.simps [of n])
  next
    case False
    from Suc.prems have "n div 2 < 2 ^ k" by simp
    from Suc.IH [OF this] False show ?thesis by (simp add: bit_length.simps [of n])
  qed
qed

lemma bit_length_pos: "0 < n \<Longrightarrow> 0 < bit_length n"
  by (simp add: bit_length.simps [of n])

lemma round_even_of_int: "round_even (of_int m) = m"
  by (simp add: round_even_def)

lemma to_double_pos_int:
  assumes "0 < n" and "n < 2 ^ 53"
  shows "to_double (of_int n) = Fin (of_int n)"
proof -
  define b where "b = bit_length n"
  from assms have b: "0 < b" "b \<le> 53"
    by (simp_all add: b_def bit_length_pos bit_length_le)
  define k where "k = 53 - b"
  from assms(1) have one: "(1::rat) \<le> of_int n"
    by (metis of_int_1_le_iff zle_diff1_eq diff_ge_0_iff_ge int_one_le_iff_zero_less)
  then have bin: "binade (of_int n) = int b - 1"
    by (simp add: binade_def b_def)
  from b have e: "max (int b - 1) (- 1022) = int b - 1" by simp
  from b have p: "pow2 (int b - 1 - 52) = 1 / 2 ^ k"
    by (cases "b = 53") (simp_all add: pow2_def k_def nat_diff_distrib')
  have q: "(of_int n :: rat) / (1 / 2 ^ k) = of_int (n * 2 ^ k)" by simp
  have r: "(of_int (n * 2 ^ k) :: rat) * (1 / 2 ^ k) = of_int n" by simp
  from assms(1) have nz: "(of_int n :: rat) \<noteq> 0" "\<not> (of_int n :: rat) < 0"
    "\<bar>of_int n :: rat\<bar> = of_int n"
    by simp_all
  from b have small: "\<not> 1024 \<le> int b - 1" by simp
  show ?thesis
    unfolding to_double_def Let_def nz bin e p q round_even_of_int r
    using nz small by simp
qed

lemma to_double_of_int:
  assumes "\<bar>n\<bar> < 2 ^ 53"
  shows "to_double (of_int n) = Fin (of_int n)"
proof -
  consider "n = 0" | "0 < n" | "n < 0" by linarith
  then show ?thesis
  proof cases
    case 1
    then show ?thesis by (simp add: to_double_def)
  next
    case 2
    with assms show ?thesis by (simp add: to_double_pos_int)
  next
    case 3
    with assms have m: "0 < - n" "- n < 2 ^ 53" by simp_all
    have "to_double (of_int n) = negate (to_double (of_int (- n)))"
      using 3 by (simp add: to_double_def Let_def)
    with to_double_pos_int [OF m] show ?thesis by simp
  qed
qed

lemma to_double_not_NaN [simp]: "to_double x \<noteq> NaN"
  by (simp add: to_double_def Let_def)

subsection \<open>Literals\<close>

lemma remove_quotes_filter: "remove_quotes s = filter (\<lambda>c. \<not> is_quote c) s"
  by (induction s) simp_all

lemma is_digit_in_10: "is_digit_in 10 c \<longleftrightarrow> 48 \<le> (of_char c :: nat) \<and> (of_char c :: nat) \<le> 57"
  by (auto simp: is_digit_in_def digit_of_def Let_def)

lemma digit_not_ws: "is_digit_in 10 c \<Longrightarrow> \<not> is_ws c"
  by (auto simp: is_digit_in_10 is_ws_def)

lemma starts_with_set: "starts_with s p \<Longrightarrow> set p \<subseteq> set s"
  by (metis starts_with_def set_take_subset)

lemma trim_digits:
  assumes "all_digits 10 v"
  shows "trim v = v"
proof -
  from assms have ne: "v \<noteq> []" and d: "\<And>c. c \<in> set v \<Longrightarrow> \<not> is_ws c"
    by (auto simp: all_digits_def list_all_iff digit_not_ws)
  from ne d have "dropWhile is_ws v = v"
    by (cases v) simp_all
  moreover from ne d have "dropWhile is_ws (rev v) = rev v"
    by (cases "rev v") (simp, metis dropWhile.simps(2) list.set_intros(1) set_rev)
  ultimately show ?thesis by (simp add: trim_def)
qed

lemma digits_no_letter:
  assumes "all_digits 10 v" and "starts_with v p" and "c \<in> set p"
  shows "is_digit_in 10 c"
  using assms starts_with_set [of v p]
  by (auto simp: all_digits_def list_all_iff)

lemma StrNumericLiteral_digits:
  assumes "all_digits 10 v"
  shows "StrNumericLiteral v = to_double (of_int (digits_value 10 v))"
proof -
  note no = digits_no_letter [OF assms]
  have x: "\<not> starts_with v ''0x''" "\<not> starts_with v ''0X''" "\<not> starts_with v ''0o''"
    "\<not> starts_with v ''0O''" "\<not> starts_with v ''0b''" "\<not> starts_with v ''0B''"
    "\<not> starts_with v ''+''" "\<not> starts_with v ''-''"
    using no [of "''0x''" "CHR ''x''"] no [of "''0X''" "CHR ''X''"]
      no [of "''0o''" "CHR ''o''"] no [of "''0O''" "CHR ''O''"]
      no [of "''0b''" "CHR ''b''"] no [of "''0B''" "CHR ''B''"]
      no [of "''+''" "CHR ''+''"] no [of "''-''" "CHR ''-''"]
    by (auto simp: is_digit_in_10)
  from assms have inf: "v \<noteq> ''Infinity''"
    by (auto simp: all_digits_def is_digit_in_10)
  from assms have tw: "takeWhile (is_digit_in 10) v = v" "dropWhile (is_digit_in 10) v = []"
    and ne: "v \<noteq> []"
    by (auto simp: all_digits_def list_all_iff takeWhile_eq_all_conv)
  have "StrUnsignedDecimalLiteral v = to_double (of_int (digits_value 10 v))"
    by (simp add: StrUnsignedDecimalLiteral_def inf tw ne starts_with_def digits_value_def)
  with x show ?thesis by (simp add: StrNumericLiteral_def)
qed

lemma StringToNumber_digits:
  assumes "all_digits 10 v"
  shows "StringToNumber v = to_double (of_int (digits_value 10 v))"
  using assms StrNumericLiteral_digits [OF assms] trim_digits [OF assms]
  by (auto simp: StringToNumber_def all_digits_def)

lemma digits_value_nonneg: "0 \<le> digits_value b s"
proof -
  have "0 \<le> a \<Longrightarrow> 0 \<le> foldl (\<lambda>a c. a * int b
      + (case digit_of c of Some d \<Rightarrow> int d | None \<Rightarrow> 0)) a s" for a
    by (induction s arbitrary: a) (auto split: option.splits)
  then show ?thesis by (simp add: digits_value_def)
qed

text \<open>
  Claim C8, as the code has it. \<^verbatim>\<open>parseValue\<close> removes every quote character,
  wherever it stands, and parses what is left, whether the operand was quoted or
  not: a number when \<^verbatim>\<open>Number\<close> accepts it (so every string of decimal digits is
  the double nearest to its value, and its value when that is below \<open>2^53\<close>), else
  \<^verbatim>\<open>true\<close> or \<^verbatim>\<open>false\<close>, else the string itself.
\<close>

theorem parseValue_strips_every_quote:
  "(\<forall>c \<in> set (remove_quotes v). \<not> is_quote c)
   \<and> remove_quotes v = filter (\<lambda>c. \<not> is_quote c) v
   \<and> parseValue v = parseValue (remove_quotes v)
   \<and> (StringToNumber (remove_quotes v) \<noteq> NaN
        \<longrightarrow> parseValue v = JNum (StringToNumber (remove_quotes v)))
   \<and> (all_digits 10 (remove_quotes v)
        \<longrightarrow> parseValue v = JNum (to_double (of_int (digits_value 10 (remove_quotes v))))
          \<and> (digits_value 10 (remove_quotes v) < 2 ^ 53
              \<longrightarrow> parseValue v = JNum (Fin (of_int (digits_value 10 (remove_quotes v))))))
   \<and> (StringToNumber (remove_quotes v) = NaN
        \<longrightarrow> parseValue v =
            (if remove_quotes v = ''true'' then JBool True
             else if remove_quotes v = ''false'' then JBool False
             else JStr (remove_quotes v)))"
proof -
  have idem: "remove_quotes (remove_quotes v) = remove_quotes v"
    by (simp add: remove_quotes_filter)
  have "\<forall>c \<in> set (remove_quotes v). \<not> is_quote c"
    by (simp add: remove_quotes_filter)
  moreover have "parseValue v = parseValue (remove_quotes v)"
    by (simp only: parseValue_def idem)
  moreover have d: "all_digits 10 (remove_quotes v)
      \<longrightarrow> parseValue v = JNum (to_double (of_int (digits_value 10 (remove_quotes v))))"
    by (simp add: parseValue_def StringToNumber_digits)
  moreover have "all_digits 10 (remove_quotes v) \<and> digits_value 10 (remove_quotes v) < 2 ^ 53
      \<longrightarrow> parseValue v = JNum (Fin (of_int (digits_value 10 (remove_quotes v))))"
  proof
    assume a: "all_digits 10 (remove_quotes v) \<and> digits_value 10 (remove_quotes v) < 2 ^ 53"
    with digits_value_nonneg [of 10 "remove_quotes v"]
    have "\<bar>digits_value 10 (remove_quotes v)\<bar> < 2 ^ 53" by simp
    from to_double_of_int [OF this] d a
    show "parseValue v = JNum (Fin (of_int (digits_value 10 (remove_quotes v))))" by simp
  qed
  ultimately show ?thesis
    by (simp add: remove_quotes_filter parseValue_def Let_def)
qed

theorem parseValue_strips_every_quote_witness:
  "all_digits 10 (remove_quotes ([CHR 0x22] @ ''123'' @ [CHR 0x22]))
   \<and> digits_value 10 (remove_quotes ([CHR 0x22] @ ''123'' @ [CHR 0x22])) < 2 ^ 53
   \<and> parseValue ([CHR 0x22] @ ''123'' @ [CHR 0x22]) = JNum (Fin 123)
   \<and> StringToNumber (remove_quotes ([CHR 0x27] @ ''true'' @ [CHR 0x27])) = NaN
   \<and> parseValue ([CHR 0x27] @ ''true'' @ [CHR 0x27]) = JBool True"
proof -
  let ?q = "[CHR 0x22] @ ''123'' @ [CHR 0x22]"
  let ?t = "[CHR 0x27] @ ''true'' @ [CHR 0x27]"
  have a: "all_digits 10 (remove_quotes ?q)" by code_simp
  have b: "digits_value 10 (remove_quotes ?q) = 123" by code_simp
  have c: "StringToNumber (remove_quotes ?t) = NaN" by code_simp
  have d: "remove_quotes ?t = ''true''" by code_simp
  have s: "digits_value 10 (remove_quotes ?q) < 2 ^ 53" unfolding b by simp
  note th = parseValue_strips_every_quote
  have "parseValue ?q = JNum (Fin (of_int (digits_value 10 (remove_quotes ?q))))"
    by (rule th [THEN conjunct2, THEN conjunct2, THEN conjunct2, THEN conjunct2,
          THEN conjunct1, THEN mp, OF a, THEN conjunct2, THEN mp, OF s])
  then have e: "parseValue ?q = JNum (Fin 123)"
    by (simp only: b of_int_numeral)
  have "parseValue ?t = (if remove_quotes ?t = ''true'' then JBool True
      else if remove_quotes ?t = ''false'' then JBool False else JStr (remove_quotes ?t))"
    by (rule th [THEN conjunct2, THEN conjunct2, THEN conjunct2, THEN conjunct2,
          THEN conjunct2, THEN mp, OF c])
  then have f: "parseValue ?t = JBool True"
    unfolding d by simp
  from a s e c f show ?thesis by (intro conjI)
qed

text \<open>
  Claim C8 as stated keeps a quoted operand as a string. A quoted number becomes a
  number, a quote inside the operand is removed too, and the empty operand is \<open>0\<close>.
\<close>

theorem quoted_number_is_a_number:
  "parseValue ([CHR 0x22] @ ''123'' @ [CHR 0x22]) = JNum (Fin 123)
   \<and> parseValue ([CHR 0x22] @ ''123'' @ [CHR 0x22]) \<noteq> JStr ''123''
   \<and> parseValue (''it'' @ [CHR 0x27] @ ''s'') = JStr ''its''
   \<and> parseValue [] = JNum (Fin 0)"
  by code_simp

text \<open>
  \<^verbatim>\<open>Number\<close> yields a double: an integer above \<open>2^53\<close> is rounded, the no-break
  space is white space, and a hexadecimal literal is a number.
\<close>

lemma Number_is_a_double:
  "parseValue ''9007199254740993'' = JNum (Fin 9007199254740992)
   \<and> parseValue ([CHR 0xA0] @ ''5'' @ [CHR 0xA0]) = JNum (Fin 5)
   \<and> parseValue ''0x1F'' = JNum (Fin 31)
   \<and> parseValue ''0.1'' = JNum (Fin (3602879701896397 / 36028797018963968))
   \<and> parseValue ''1e3'' = JNum (Fin 1000)"
  by code_simp

lemma bit_length_gt: "2 ^ k \<le> n \<Longrightarrow> k < bit_length n"
proof (induction k arbitrary: n)
  case 0
  then show ?case by (simp add: bit_length.simps [of n])
next
  case (Suc k)
  then have "2 ^ k \<le> n div 2" by simp
  moreover have "(0::int) < 2 ^ Suc k" by simp
  with Suc.prems have "0 < n" by linarith
  ultimately show ?case
    using Suc.IH [of "n div 2"] by (simp add: bit_length.simps [of n])
qed

lemma bit_length_lower: "0 < n \<Longrightarrow> 2 ^ (bit_length n - 1) \<le> n"
proof (induction n rule: bit_length.induct)
  case (1 n)
  show ?case
  proof (cases "n div 2 \<le> 0")
    case True
    then have "bit_length (n div 2) = 0" by (simp add: bit_length.simps [of "n div 2"])
    with "1.prems" show ?thesis
      by (simp add: bit_length.simps [of n])
  next
    case False
    with "1.IH" "1.prems" have "2 ^ (bit_length (n div 2) - 1) \<le> n div 2" by simp
    moreover from False have "0 < bit_length (n div 2)" by (simp add: bit_length_pos)
    ultimately have "2 ^ bit_length (n div 2) \<le> 2 * (n div 2)"
      by (cases "bit_length (n div 2)") simp_all
    also have "\<dots> \<le> n" by simp
    finally show ?thesis using "1.prems" by (simp add: bit_length.simps [of n])
  qed
qed

lemma round_even_ge_floor: "\<lfloor>x\<rfloor> \<le> round_even x"
  by (simp add: round_even_def Let_def)

lemma binade_large:
  assumes "2 ^ k \<le> x"
  shows "int k \<le> binade x"
proof -
  have "(1::rat) \<le> 2 ^ k" by simp
  with assms have one: "1 \<le> x" by linarith
  from assms have "2 ^ k \<le> \<lfloor>x\<rfloor>"
    by (metis le_floor_iff of_int_numeral of_int_power)
  from bit_length_gt [OF this] one show ?thesis by (simp add: binade_def)
qed

lemma to_double_overflow:
  assumes "2 ^ 1024 \<le> x"
  shows "to_double x = PosInf"
proof -
  from binade_large [OF assms] have e: "1024 \<le> binade x" by simp
  have "(0::rat) < 2 ^ 1024" by simp
  with assms have pos: "0 < x" by linarith
  have "(1::rat) \<le> 2 ^ 1024" by simp
  with assms have one: "1 \<le> x" by linarith
  define n where "n = \<lfloor>x\<rfloor>"
  from one have n: "0 < n" by (simp add: n_def)
  define b where "b = bit_length n"
  from one have bin: "binade x = int b - 1" by (simp add: binade_def b_def n_def)
  with e have b: "1025 \<le> b" by simp
  define j where "j = b - 53"
  from b have p: "pow2 (int b - 1 - 52) = 2 ^ j"
    by (simp add: pow2_def j_def nat_diff_distrib')
  from bit_length_lower [OF n] have "(2::int) ^ (b - 1) \<le> n" by (simp add: b_def)
  then have "(2::rat) ^ (b - 1) \<le> of_int n"
    by (metis of_int_le_iff of_int_numeral of_int_power)
  also have "\<dots> \<le> x" by (simp add: n_def)
  finally have low: "(2::rat) ^ (b - 1) \<le> x" .
  from b have split: "b - 1 = 52 + j" by (simp add: j_def)
  from low have "(2::rat) ^ (52 + j) \<le> x" by (simp only: split)
  then have "(2::rat) ^ 52 * 2 ^ j \<le> x" by (simp only: power_add)
  then have "(2::rat) ^ 52 \<le> x / 2 ^ j"
    by (simp only: pos_le_divide_eq [of "2 ^ j"] zero_less_power zero_less_numeral)
  then have "(2::int) ^ 52 \<le> \<lfloor>x / 2 ^ j\<rfloor>"
    by (metis le_floor_iff of_int_numeral of_int_power)
  with round_even_ge_floor [of "x / 2 ^ j"] have m: "2 ^ 52 \<le> round_even (x / 2 ^ j)"
    by linarith
  then have "(2::rat) ^ 52 \<le> of_int (round_even (x / 2 ^ j))"
    by (metis of_int_le_iff of_int_numeral of_int_power)
  then have "(2::rat) ^ 52 * 2 ^ j \<le> of_int (round_even (x / 2 ^ j)) * 2 ^ j"
    by (rule mult_right_mono) simp
  then have "(2::rat) ^ (52 + j) \<le> of_int (round_even (x / 2 ^ j)) * 2 ^ j"
    by (simp only: power_add)
  moreover from b have "(2::rat) ^ 1024 \<le> 2 ^ (52 + j)"
    by (intro power_increasing) (simp_all add: j_def)
  ultimately have "(2::rat) ^ 1024 \<le> of_int (round_even (x / 2 ^ j)) * 2 ^ j"
    by (rule order_trans [rotated])
  from binade_large [OF this] have big: "1024 \<le> binade (of_int (round_even (x / 2 ^ j)) * 2 ^ j)"
    by simp
  from b have mx: "max (int b - 1) (- 1022) = int b - 1" by simp
  from pos have nz: "x \<noteq> 0" "\<not> x < 0" "\<bar>x\<bar> = x" by simp_all
  show ?thesis
    unfolding to_double_def Let_def nz bin mx p
    using nz big by simp
qed

lemma to_double_underflow:
  assumes "0 < x" and "x \<le> 1 / 2 ^ 1075"
  shows "to_double x = Fin 0"
proof -
  have "(1::rat) / 2 ^ 1075 < 1" by simp
  with assms have lt1: "\<not> 1 \<le> x" by linarith
  from assms have "2 ^ 1075 \<le> 1 / x"
    by (simp add: pos_le_divide_eq mult.commute pos_divide_le_eq)
  then have "(2::int) ^ 1075 \<le> \<lceil>1 / x\<rceil>"
    by (metis ceiling_mono ceiling_of_int of_int_numeral of_int_power)
  then have "(2::int) ^ 1074 \<le> \<lceil>1 / x\<rceil> - 1" by simp
  from bit_length_gt [OF this] lt1 have bin: "binade x \<le> - 1022"
    by (simp add: binade_def)
  then have mx: "max (binade x) (- 1022) = - 1022" by simp
  have p: "pow2 (- 1022 - 52) = 1 / 2 ^ 1074" by (simp add: pow2_def)
  from assms have half: "0 < x / (1 / 2 ^ 1074)" "x / (1 / 2 ^ 1074) \<le> 1 / 2"
    by simp_all
  then have fl: "\<lfloor>x / (1 / 2 ^ 1074)\<rfloor> = 0" by (simp add: floor_eq_iff)
  with half have r: "round_even (x / (1 / 2 ^ 1074)) = 0"
    unfolding round_even_def Let_def fl by simp
  have z: "binade 0 = 0" by (simp add: binade_def bit_length.simps)
  from assms have nz: "x \<noteq> 0" "\<not> x < 0" "\<bar>x\<bar> = x" by simp_all
  show ?thesis
    unfolding to_double_def Let_def nz mx p r
    using nz z by simp
qed

lemma Number_overflows:
  "parseValue ''1e309'' = JNum PosInf \<and> parseValue ''1e-400'' = JNum (Fin 0)"
proof -
  have a: "StringToNumber ''1e309'' = to_double (10 ^ 309)"
    and b: "StringToNumber ''1e-400'' = to_double (1 / 10 ^ 400)"
    by (simp_all add: StringToNumber_def trim_def is_ws_def StrNumericLiteral_def
        starts_with_def StrUnsignedDecimalLiteral_def is_digit_in_def digit_of_def
        SignedInteger_def all_digits_def digits_value_def Let_def)
  have "(2::rat) ^ 1024 \<le> 10 ^ 309" by simp
  from to_double_overflow [OF this] a have 1: "StringToNumber ''1e309'' = PosInf" by simp
  have "(0::rat) < 1 / 10 ^ 400" "(1::rat) / 10 ^ 400 \<le> 1 / 2 ^ 1075" by simp_all
  from to_double_underflow [OF this] b have 2: "StringToNumber ''1e-400'' = Fin 0" by simp
  have q: "remove_quotes ''1e309'' = ''1e309''" "remove_quotes ''1e-400'' = ''1e-400''"
    by (simp_all add: is_quote_def)
  show ?thesis by (simp only: parseValue_def Let_def q 1 2) simp
qed

end
